theory Spec2Isabelle
  imports Main "HOL-Library.Sublist"
begin

section \<open>Data model (src/unnamed/part_003, the shared types)\<close>

text \<open>
  Strings are \<open>char list\<close>, one \<open>char\<close> for each UTF-16 code unit of the JavaScript
  string, which is exact for ASCII text. A JavaScript \<open>number\<close> that holds an index, an
  offset or a millisecond timestamp is an \<open>int\<close>, and a \<open>Date\<close> is its millisecond
  value. A value that may be \<open>null\<close> or \<open>undefined\<close> is an \<open>option\<close> with \<open>None\<close> for
  both. The optional fields \<open>preloadedExpansion\<close> of a highlight and \<open>expansion\<close> of a
  topic, which the hook and the highlight renderer never read, are left out.
\<close>

datatype TopicCategory =
  News | Tech | Science | Finance | Culture | Politics | Health | Sports | General

datatype SwipeDirection = Up | Down | Left | Right

datatype ViewDepth = Summary | Expanded | Detail

datatype ScrollDirection = ScrollUp | ScrollDown

datatype Mode = Live | Demo

record TopicHighlight =
  highlight_id :: string
  highlight_text :: string
  startIndex :: int
  endIndex :: int

record Topic =
  topic_id :: string
  title :: string
  summary :: string
  content :: string
  source :: string
  sourceUrl :: string
  timestamp :: int
  category :: TopicCategory
  highlights :: "TopicHighlight list"

text \<open>What reading a property of a plain object can give besides \<open>undefined\<close>: a string
  the object holds itself, or the member of \<open>Object.prototype\<close> of that name (a function,
  or the prototype object itself for \<open>__proto__\<close>), which every plain object inherits.\<close>

datatype JsValue = Str string | Inherited string

text \<open>The state of the hook \<open>useTopicFeed\<close> (third variant, with persistence and pagination).
  The maps hold the own entries of the objects; an entry is \<open>Some None\<close> when the key was
  written with \<open>undefined\<close>. \<open>conceptContent\<close> is declared \<open>string | null\<close>, and on a cache
  hit receives whatever the read of the cache gave.\<close>

record TopicFeedState =
  topics :: "Topic list"
  currentIndex :: int
  depth :: ViewDepth
  isLoading :: bool
  isLoadingMore :: bool
  error :: "string option"
  expandedContent :: "string \<rightharpoonup> string option"
  detailContent :: "string \<rightharpoonup> string option"
  direction :: ScrollDirection
  currentConcept :: "string option"
  conceptContent :: "JsValue option"
  isExploringConcept :: bool
  conceptCache :: "string \<rightharpoonup> string option"
  mode :: Mode
  hasMore :: bool

text \<open>The three \<open>useRef\<close> cells of the hook.\<close>

record Refs =
  preloadedRef :: "string set"
  conceptPreloadRef :: "string set"
  initializedRef :: bool

definition initialState :: TopicFeedState where
  "initialState = \<lparr> topics = [], currentIndex = 0, depth = Summary, isLoading = True,
     isLoadingMore = False, error = None, expandedContent = Map.empty,
     detailContent = Map.empty, direction = ScrollDown, currentConcept = None,
     conceptContent = None, isExploringConcept = False, conceptCache = Map.empty,
     mode = Demo, hasMore = True \<rparr>"

definition initialRefs :: Refs where
  "initialRefs = \<lparr> preloadedRef = {}, conceptPreloadRef = {}, initializedRef = False \<rparr>"

section \<open>JavaScript primitives used by the hook\<close>

text \<open>\<open>xs[i]\<close> for a number \<open>i\<close>: \<open>undefined\<close> outside the array.\<close>

definition at_index :: "'a list \<Rightarrow> int \<Rightarrow> 'a option" where
  "at_index xs i = (if 0 \<le> i \<and> i < int (length xs) then Some (xs ! nat i) else None)"

text \<open>Truthiness of a value that is \<open>undefined\<close>, \<open>null\<close> or a string: only a non-empty
  string is truthy.\<close>

definition truthy :: "string option \<Rightarrow> bool" where
  "truthy v = (case v of None \<Rightarrow> False | Some s \<Rightarrow> s \<noteq> [])"

text \<open>The same for a value read from an object.\<close>

definition truthy_value :: "JsValue option \<Rightarrow> bool" where
  "truthy_value v =
     (case v of None \<Rightarrow> False | Some (Str s) \<Rightarrow> s \<noteq> [] | Some (Inherited k) \<Rightarrow> True)"

text \<open>The property names of \<open>Object.prototype\<close>.\<close>

definition objectPrototypeKeys :: "string list" where
  "objectPrototypeKeys =
     [''constructor'', ''__proto__'', ''hasOwnProperty'', ''isPrototypeOf'',
      ''propertyIsEnumerable'', ''toLocaleString'', ''toString'', ''valueOf'',
      ''__defineGetter__'', ''__defineSetter__'', ''__lookupGetter__'', ''__lookupSetter__'']"

text \<open>\<open>obj[key]\<close> on a \<open>Record<string, string>\<close> built as an object literal: an own entry
  wins, also one holding \<open>undefined\<close>; without an own entry the read goes to
  \<open>Object.prototype\<close>, and is \<open>undefined\<close> only when the key is not one of its names.\<close>

definition lookup :: "(string \<rightharpoonup> string option) \<Rightarrow> string \<Rightarrow> JsValue option" where
  "lookup m k =
     (case m k of
        Some v \<Rightarrow> map_option Str v
      | None \<Rightarrow> if k \<in> set objectPrototypeKeys then Some (Inherited k) else None)"

text \<open>\<open>String.prototype.toLowerCase\<close> and \<open>trim\<close> on ASCII text: the letters A to Z are
  lowered, and tab, line feed, vertical tab, form feed, carriage return and space are the
  white space.\<close>

definition toLowerCase_char :: "char \<Rightarrow> char" where
  "toLowerCase_char c =
     (let n = (of_char c :: nat) in if 65 \<le> n \<and> n \<le> 90 then char_of (n + 32) else c)"

definition toLowerCase :: "string \<Rightarrow> string" where
  "toLowerCase s = map toLowerCase_char s"

definition isWhiteSpace :: "char \<Rightarrow> bool" where
  "isWhiteSpace c = ((of_char c :: nat) \<in> {9, 10, 11, 12, 13, 32})"

definition trim :: "string \<Rightarrow> string" where
  "trim s = rev (dropWhile isWhiteSpace (rev (dropWhile isWhiteSpace s)))"

text \<open>\<open>s.slice(a, b)\<close>: negative arguments count from the end, both are clamped to the
  string, and an empty string results when the start is not before the end.\<close>

definition slice :: "string \<Rightarrow> int \<Rightarrow> int \<Rightarrow> string" where
  "slice s a b =
     (let len = int (length s);
          from = (if a < 0 then max (len + a) 0 else min a len);
          to = (if b < 0 then max (len + b) 0 else min b len)
      in take (nat (to - from)) (drop (nat from) s))"

text \<open>\<open>s.slice(a)\<close>: to the end of the string.\<close>

definition slice_from :: "string \<Rightarrow> int \<Rightarrow> string" where
  "slice_from s a = slice s a (int (length s))"

text \<open>\<open>content.indexOf(pat)\<close>: the least position at which \<open>pat\<close> starts, or \<open>-1\<close>.
  The search runs over the suffixes of the content, carrying the position.\<close>

fun indexOf_from :: "nat \<Rightarrow> string \<Rightarrow> string \<Rightarrow> int" where
  "indexOf_from i [] pat = (if pat = [] then int i else - 1)"
| "indexOf_from i (c # cs) pat =
     (if take (length pat) (c # cs) = pat then int i else indexOf_from (Suc i) cs pat)"

definition indexOf :: "string \<Rightarrow> string \<Rightarrow> int" where
  "indexOf s pat = indexOf_from 0 s pat"

section \<open>Persistence (localStorage under the key \<open>vibescroll_feed_state\<close>)\<close>

text \<open>
  The value under the key is text. It is either text that \<open>JSON.parse\<close> rejects, or the
  serialisation of an object of the shape \<open>saveToStorage\<close> writes. Each of the three
  storage calls may throw (storage disabled, quota exceeded); whether it does is a
  property of the environment, carried in the model of the store.
\<close>

record Persisted =
  p_topics :: "Topic list"
  p_currentIndex :: int
  p_timestamp :: int

datatype Stored = Unparseable | Saved Persisted

record Storage =
  item :: "Stored option"
  getItem_throws :: bool
  setItem_throws :: bool
  removeItem_throws :: bool

datatype Exn = StorageException | SyntaxError

definition setItem :: "Stored \<Rightarrow> Storage \<Rightarrow> Exn + Storage" where
  "setItem v sto = (if setItem_throws sto then Inl StorageException else Inr (sto\<lparr>item := Some v\<rparr>))"

definition getItem :: "Storage \<Rightarrow> Exn + Stored option" where
  "getItem sto = (if getItem_throws sto then Inl StorageException else Inr (item sto))"

definition removeItem :: "Storage \<Rightarrow> Exn + Storage" where
  "removeItem sto = (if removeItem_throws sto then Inl StorageException else Inr (sto\<lparr>item := None\<rparr>))"

definition JSON_parse :: "Stored \<Rightarrow> Exn + Persisted" where
  "JSON_parse v = (case v of Unparseable \<Rightarrow> Inl SyntaxError | Saved d \<Rightarrow> Inr d)"

text \<open>\<open>saveToStorage\<close>: the \<open>catch\<close> logs and returns, so a failed write leaves the store
  as it was. \<open>now\<close> is \<open>Date.now()\<close>.\<close>

definition saveToStorage :: "int \<Rightarrow> Topic list \<Rightarrow> int \<Rightarrow> Storage \<Rightarrow> Storage" where
  "saveToStorage now ts idx sto =
     (case setItem (Saved \<lparr> p_topics = ts, p_currentIndex = idx, p_timestamp = now \<rparr>) sto of
        Inl e \<Rightarrow> sto
      | Inr sto' \<Rightarrow> sto')"

definition oneHour :: int where
  "oneHour = 60 * 60 * 1000"

text \<open>\<open>loadFromStorage\<close>: every exception inside the \<open>try\<close> ends in \<open>return null\<close>.\<close>

definition loadFromStorage :: "int \<Rightarrow> Storage \<Rightarrow> (Topic list \<times> int) option \<times> Storage" where
  "loadFromStorage now sto =
     (case getItem sto of
        Inl e \<Rightarrow> (None, sto)
      | Inr None \<Rightarrow> (None, sto)
      | Inr (Some saved) \<Rightarrow>
          (case JSON_parse saved of
             Inl e \<Rightarrow> (None, sto)
           | Inr d \<Rightarrow>
               if now - p_timestamp d > oneHour then
                 (case removeItem sto of
                    Inl e \<Rightarrow> (None, sto)
                  | Inr sto' \<Rightarrow> (None, sto'))
               else (Some (p_topics d, p_currentIndex d), sto)))"

section \<open>Requests to the content service\<close>

text \<open>
  A request is recorded by what it asks for. The answer to a \<open>fetch\<close> is either a
  rejected promise, with the message of the error, or a response with its \<open>ok\<close> flag and
  its body; the body is \<open>Inl\<close> with the error's message when reading it as JSON throws,
  and otherwise \<open>Inr\<close> with the fields the hook reads from it.
\<close>

datatype Request =
  GetTopics
| GetExpand string string string
| PostExplore string "string option" "string option"

datatype 'a Response = Rejected string | Response bool "string + 'a"

text \<open>The body of an answer of \<open>/api/topics\<close>, as the route builds it: the topics, and
  the optional \<open>mode\<close> and \<open>hasMore\<close>.\<close>

record TopicsData =
  d_topics :: "Topic list"
  d_mode :: "Mode option"
  d_hasMore :: "bool option"

text \<open>\<open>buildExpandUrl\<close>: the URL carries the topic's id, title and content.\<close>

definition buildExpandUrl :: "Topic \<Rightarrow> Request" where
  "buildExpandUrl t = GetExpand (topic_id t) (title t) (content t)"

section \<open>The feed controller (src/src/hooks/useSwipeGestures.ts, \<open>useTopicFeed\<close>)\<close>

text \<open>
  Every operation is a function of the state it finds. An operation that awaits a
  request takes the answer of the service as an argument and returns the requests it
  issued; the state it closes over and the state its updaters receive are the same state,
  which is the case when no other update runs in between.
\<close>

subsection \<open>Concept exploration\<close>

definition normalizeConcept :: "string \<Rightarrow> string" where
  "normalizeConcept concept = trim (toLowerCase concept)"

definition clearConceptExploration :: "TopicFeedState \<Rightarrow> TopicFeedState" where
  "clearConceptExploration st =
     st\<lparr> currentConcept := None, conceptContent := None, isExploringConcept := False \<rparr>"

text \<open>The part of \<open>exploreConcept\<close> that runs before the first \<open>await\<close>: the cache check
  and, on a miss, the loading state and the request.\<close>

definition exploreConcept_begin :: "TopicFeedState \<Rightarrow> string \<Rightarrow> TopicFeedState \<times> Request option" where
  "exploreConcept_begin st concept =
     (let normalizedConcept = normalizeConcept concept;
          currentTopic = at_index (topics st) (currentIndex st)
      in if truthy_value (lookup (conceptCache st) normalizedConcept) then
           (st\<lparr> currentConcept := Some concept,
                conceptContent := lookup (conceptCache st) normalizedConcept,
                isExploringConcept := False \<rparr>, None)
         else
           (st\<lparr> currentConcept := Some concept, conceptContent := None,
                isExploringConcept := True \<rparr>,
            Some (PostExplore concept (map_option topic_id currentTopic)
                    (map_option content currentTopic))))"

definition unableToResearch :: "string \<Rightarrow> string" where
  "unableToResearch concept =
     ''Unable to research '' @ [CHR 0x22] @ concept @ [CHR 0x22] @ '' at this time. Please try again.''"

text \<open>The \<open>catch\<close> branch of \<open>exploreConcept\<close>.\<close>

definition exploreConcept_failed :: "TopicFeedState \<Rightarrow> string \<Rightarrow> TopicFeedState" where
  "exploreConcept_failed st concept =
     st\<lparr> conceptContent := Some (Str (unableToResearch concept)),
         isExploringConcept := False \<rparr>"

text \<open>The part after the \<open>await\<close>: a rejected fetch, a response that is not \<open>ok\<close> and a
  body that cannot be read all reach the \<open>catch\<close>.\<close>

definition exploreConcept_complete ::
  "TopicFeedState \<Rightarrow> string \<Rightarrow> (string option) Response \<Rightarrow> TopicFeedState" where
  "exploreConcept_complete st concept resp =
     (case resp of
        Rejected msg \<Rightarrow> exploreConcept_failed st concept
      | Response ok body \<Rightarrow>
          if \<not> ok then exploreConcept_failed st concept
          else (case body of
                  Inl msg \<Rightarrow> exploreConcept_failed st concept
                | Inr data_content \<Rightarrow>
                    st\<lparr> conceptContent := map_option Str data_content,
                         isExploringConcept := False,
                         conceptCache := (conceptCache st)(normalizeConcept concept \<mapsto> data_content) \<rparr>))"

text \<open>The whole call, with the requests it issued.\<close>

definition exploreConcept ::
  "TopicFeedState \<Rightarrow> string \<Rightarrow> (string option) Response \<Rightarrow> TopicFeedState \<times> Request list" where
  "exploreConcept st concept resp =
     (case exploreConcept_begin st concept of
        (st', None) \<Rightarrow> (st', [])
      | (st', Some req) \<Rightarrow> (exploreConcept_complete st' concept resp, [req]))"

subsection \<open>Navigation\<close>

text \<open>The updater passed to \<open>setState\<close> in \<open>navigate\<close>, with the write to the store it
  performs.\<close>

definition navigate_update ::
  "int \<Rightarrow> SwipeDirection \<Rightarrow> TopicFeedState \<times> Storage \<Rightarrow> TopicFeedState \<times> Storage" where
  "navigate_update now dir w =
     (let prev = fst w; sto = snd w in
      case dir of
        Down \<Rightarrow>
          if currentIndex prev < int (length (topics prev)) - 1 then
            (let newIndex = currentIndex prev + 1 in
             (prev\<lparr> currentIndex := newIndex, depth := Summary, direction := ScrollDown,
                    currentConcept := None, conceptContent := None \<rparr>,
              saveToStorage now (topics prev) newIndex sto))
          else (prev, sto)
      | Up \<Rightarrow>
          if currentIndex prev > 0 then
            (let newIndex = currentIndex prev - 1 in
             (prev\<lparr> currentIndex := newIndex, depth := Summary, direction := ScrollUp,
                    currentConcept := None, conceptContent := None \<rparr>,
              saveToStorage now (topics prev) newIndex sto))
          else (prev, sto)
      | Right \<Rightarrow>
          if depth prev = Summary then (prev\<lparr> depth := Expanded \<rparr>, sto)
          else if depth prev = Expanded then (prev\<lparr> depth := Detail \<rparr>, sto)
          else (prev, sto)
      | Left \<Rightarrow>
          if depth prev = Detail then (prev\<lparr> depth := Expanded \<rparr>, sto)
          else if depth prev = Expanded then (prev\<lparr> depth := Summary \<rparr>, sto)
          else (prev, sto))"

definition navigate ::
  "int \<Rightarrow> SwipeDirection \<Rightarrow> TopicFeedState \<times> Storage \<Rightarrow> TopicFeedState \<times> Storage" where
  "navigate now dir w =
     (if truthy (currentConcept (fst w)) \<and> dir = Left then (clearConceptExploration (fst w), snd w)
      else navigate_update now dir w)"

subsection \<open>Prefetch\<close>

text \<open>The \<open>forEach\<close> over the highlights of the current topic: the in-flight set is keyed
  by \<open>topicId:highlightText\<close>, and each new key issues one explanation request.\<close>

fun preload_highlights ::
  "Topic \<Rightarrow> TopicHighlight list \<Rightarrow> string set \<Rightarrow> string set \<times> (TopicHighlight \<times> Request) list" where
  "preload_highlights currentTopic [] cp = (cp, [])"
| "preload_highlights currentTopic (h # hs) cp =
     (let cacheKey = topic_id currentTopic @ '':'' @ highlight_text h in
      if cacheKey \<notin> cp then
        (case preload_highlights currentTopic hs (insert cacheKey cp) of
           (cp', rs) \<Rightarrow>
             (cp', (h, PostExplore (highlight_text h) (Some (topic_id currentTopic))
                         (Some (content currentTopic))) # rs))
      else preload_highlights currentTopic hs cp)"

text \<open>The \<open>then\<close> chain of one explanation prefetch: the \<open>ok\<close> flag is not looked at, the
  body's \<open>content\<close> is stored under the lower-cased highlight text, and a rejected fetch
  or an unreadable body is swallowed.\<close>

definition prefetch_complete ::
  "TopicFeedState \<Rightarrow> TopicHighlight \<Rightarrow> (string option) Response \<Rightarrow> TopicFeedState" where
  "prefetch_complete st h resp =
     (case resp of
        Rejected msg \<Rightarrow> st
      | Response ok body \<Rightarrow>
          (case body of
             Inl msg \<Rightarrow> st
           | Inr data_content \<Rightarrow>
               st\<lparr> conceptCache :=
                      (conceptCache st)(toLowerCase (highlight_text h) \<mapsto> data_content) \<rparr>))"

text \<open>The \<open>for\<close> loop over the upcoming topics, from \<open>i\<close> up to but not including
  \<open>endIdx\<close>; it returns the already-requested set and the topics it requested, in order.\<close>

function preload_upcoming ::
  "Topic list \<Rightarrow> int \<Rightarrow> int \<Rightarrow> string set \<Rightarrow> string set \<times> Topic list" where
  "preload_upcoming ts i endIdx seen =
     (if i < endIdx then
        (case at_index ts i of
           None \<Rightarrow> preload_upcoming ts (i + 1) endIdx seen
         | Some t \<Rightarrow>
             if topic_id t \<notin> seen then
               (case preload_upcoming ts (i + 1) endIdx (insert (topic_id t) seen) of
                  (seen', rs) \<Rightarrow> (seen', t # rs))
             else preload_upcoming ts (i + 1) endIdx seen)
      else (seen, []))"
  by pat_completeness auto
termination
  by (relation "measure (\<lambda>(ts, i, endIdx, seen). nat (endIdx - i))") auto

declare preload_upcoming.simps [simp del]

text \<open>The first block of \<open>preloadTopics\<close>: the deep dive and the highlights of the current
  topic, when there is one and its id has not been requested. It returns the refs, the
  deep-dive request (if one was issued) and the explanation requests with the highlight
  each belongs to.\<close>

definition preload_current ::
  "TopicFeedState \<Rightarrow> Refs \<Rightarrow> Refs \<times> Request list \<times> (TopicHighlight \<times> Request) list" where
  "preload_current st refs =
     (case at_index (topics st) (currentIndex st) of
        None \<Rightarrow> (refs, [], [])
      | Some currentTopic \<Rightarrow>
          if topic_id currentTopic \<notin> preloadedRef refs then
            (case preload_highlights currentTopic (highlights currentTopic)
                    (conceptPreloadRef refs) of
               (cp', hreqs) \<Rightarrow>
                 (refs\<lparr> preloadedRef := insert (topic_id currentTopic) (preloadedRef refs),
                        conceptPreloadRef := cp' \<rparr>,
                  [buildExpandUrl currentTopic], hreqs))
          else (refs, [], []))"

text \<open>\<open>preloadTopics\<close>: the first block, then the loop over the upcoming topics. The
  fourth component holds the deep-dive requests of the loop in the order issued.\<close>

definition preloadTopics ::
  "int \<Rightarrow> TopicFeedState \<Rightarrow> Refs \<Rightarrow>
     Refs \<times> Request list \<times> (TopicHighlight \<times> Request) list \<times> Request list" where
  "preloadTopics preloadCount st refs =
     (case preload_current st refs of
        (refs1, creqs, hreqs) \<Rightarrow>
          (let startIdx = currentIndex st + 1;
               endIdx = min (currentIndex st + preloadCount + 1) (int (length (topics st)))
           in case preload_upcoming (topics st) startIdx endIdx (preloadedRef refs1) of
                (seen', ups) \<Rightarrow>
                  (refs1\<lparr> preloadedRef := seen' \<rparr>, creqs, hreqs, map buildExpandUrl ups)))"

text \<open>A session of the prefetch engine: \<open>preloadTopics\<close> runs once for each state the
  feed passes through, on the refs the previous run left; the deep-dive requests of all
  runs are collected in the order issued.\<close>

fun preload_session :: "int \<Rightarrow> TopicFeedState list \<Rightarrow> Refs \<Rightarrow> Refs \<times> Request list" where
  "preload_session preloadCount [] refs = (refs, [])"
| "preload_session preloadCount (st # sts) refs =
     (case preloadTopics preloadCount st refs of
        (refs', creqs, hreqs, ureqs) \<Rightarrow>
          (case preload_session preloadCount sts refs' of
             (refs'', reqs') \<Rightarrow> (refs'', creqs @ ureqs @ reqs')))"

text \<open>The topic id a deep-dive request carries.\<close>

fun expand_id :: "Request \<Rightarrow> string option" where
  "expand_id (GetExpand i t c) = Some i"
| "expand_id _ = None"

subsection \<open>Pagination\<close>

text \<open>The similarity key of a title: \<open>title.toLowerCase().slice(0, 30)\<close>.\<close>

definition titleKey :: "Topic \<Rightarrow> string" where
  "titleKey t = slice (toLowerCase (title t)) 0 30"

text \<open>The filter of \<open>loadMoreTopics\<close> over the incoming batch.\<close>

definition newTopics :: "Topic list \<Rightarrow> Topic list \<Rightarrow> Topic list" where
  "newTopics existing batch =
     (let existingIds = set (map topic_id existing);
          existingTitles = set (map titleKey existing)
      in filter (\<lambda>t. if topic_id t \<in> existingIds then False
                      else if titleKey t \<in> existingTitles then False
                      else True) batch)"

definition loadMoreTopics ::
  "int \<Rightarrow> TopicsData Response \<Rightarrow> TopicFeedState \<times> Storage \<Rightarrow>
     (TopicFeedState \<times> Storage) \<times> Request list" where
  "loadMoreTopics now resp w =
     (let st = fst w; sto = snd w in
      if isLoadingMore st then ((st, sto), [])
      else
        (let st1 = st\<lparr> isLoadingMore := True \<rparr>;
             failed = ((st1\<lparr> isLoadingMore := False \<rparr>, sto), [GetTopics])
         in case resp of
              Rejected msg \<Rightarrow> failed
            | Response ok body \<Rightarrow>
                if \<not> ok then failed
                else (case body of
                        Inl msg \<Rightarrow> failed
                      | Inr d \<Rightarrow>
                          (let updatedTopics = topics st1 @ newTopics (topics st) (d_topics d)
                           in ((st1\<lparr> topics := updatedTopics, hasMore := True,
                                     isLoadingMore := False \<rparr>,
                                saveToStorage now updatedTopics (currentIndex st1) sto),
                               [GetTopics])))))"

subsection \<open>Initial load and restore\<close>

definition fetchTopics ::
  "bool \<Rightarrow> int \<Rightarrow> TopicsData Response \<Rightarrow> TopicFeedState \<times> Refs \<times> Storage \<Rightarrow>
     (TopicFeedState \<times> Refs \<times> Storage) \<times> Request list" where
  "fetchTopics forceRefresh now resp w =
     (let st = fst w; refs = fst (snd w); sto = snd (snd w);
          tried = (if \<not> forceRefresh \<and> \<not> initializedRef refs then loadFromStorage now sto
                   else (None, sto));
          sto1 = snd tried
      in case (case fst tried of
                 None \<Rightarrow> None
               | Some saved \<Rightarrow> if length (fst saved) > 0 then Some saved else None) of
           Some saved \<Rightarrow>
             ((st\<lparr> topics := fst saved, currentIndex := snd saved, isLoading := False,
                    mode := Live \<rparr>,
               refs\<lparr> initializedRef := True \<rparr>, sto1), [])
         | None \<Rightarrow>
             (let refs1 = refs\<lparr> initializedRef := True \<rparr>;
                  st1 = st\<lparr> isLoading := True, error := None \<rparr>;
                  failed = (\<lambda>msg. ((st1\<lparr> isLoading := False, error := Some msg \<rparr>, refs1, sto1),
                                    [GetTopics]))
              in case resp of
                   Rejected msg \<Rightarrow> failed msg
                 | Response ok body \<Rightarrow>
                     if \<not> ok then failed ''Failed to fetch topics''
                     else (case body of
                             Inl msg \<Rightarrow> failed msg
                           | Inr d \<Rightarrow>
                               ((st1\<lparr> topics := d_topics d, currentIndex := 0,
                                      mode := (case d_mode d of None \<Rightarrow> Demo | Some m \<Rightarrow> m),
                                      hasMore := (d_hasMore d \<noteq> Some False),
                                      isLoading := False \<rparr>,
                                 refs1, saveToStorage now (d_topics d) 0 sto1),
                                [GetTopics]))))"

section \<open>Highlight rendering (src/unnamed/part_000, \<open>HighlightedText\<close>)\<close>

record TextSegment =
  segment_text :: string
  isHighlight :: bool
  highlight :: "TopicHighlight option"

text \<open>The offsets the loop body works with: a highlight whose indices are both zero is
  searched for in the content, and skipped (\<open>continue\<close>) when the search fails.\<close>

definition resolve_offsets :: "string \<Rightarrow> TopicHighlight \<Rightarrow> (int \<times> int) option" where
  "resolve_offsets contents h =
     (if startIndex h = 0 \<and> endIndex h = 0 then
        (let foundIdx = indexOf contents (highlight_text h) in
         if foundIdx \<ge> 0 then Some (foundIdx, foundIdx + int (length (highlight_text h)))
         else None)
      else Some (startIndex h, endIndex h))"

text \<open>The \<open>for ... of\<close> loop over the sorted highlights, with \<open>lastIndex\<close> and \<open>result\<close>
  as its state.\<close>

fun segments_loop ::
  "string \<Rightarrow> TopicHighlight list \<Rightarrow> int \<Rightarrow> TextSegment list \<Rightarrow> int \<times> TextSegment list" where
  "segments_loop contents [] lastIndex result = (lastIndex, result)"
| "segments_loop contents (h # hs) lastIndex result =
     (case resolve_offsets contents h of
        None \<Rightarrow> segments_loop contents hs lastIndex result
      | Some (startIdx, endIdx) \<Rightarrow>
          (let result1 =
                 (if startIdx > lastIndex then
                    result @ [\<lparr> segment_text = slice contents lastIndex startIdx,
                                isHighlight = False, highlight = None \<rparr>]
                  else result);
               result2 =
                 result1 @ [\<lparr> segment_text = slice contents startIdx endIdx,
                               isHighlight = True, highlight = Some h \<rparr>]
           in segments_loop contents hs endIdx result2))"

text \<open>The memoised \<open>segments\<close>. \<open>Array.prototype.sort\<close> is stable, as \<open>sort_key\<close> is.\<close>

definition segments :: "string \<Rightarrow> TopicHighlight list \<Rightarrow> TextSegment list" where
  "segments contents hs =
     (if length hs = 0 then
        [\<lparr> segment_text = contents, isHighlight = False, highlight = None \<rparr>]
      else
        (case segments_loop contents (sort_key startIndex hs) 0 [] of
           (lastIndex, result) \<Rightarrow>
             if lastIndex < int (length contents) then
               result @ [\<lparr> segment_text = slice_from contents lastIndex,
                            isHighlight = False, highlight = None \<rparr>]
             else result))"

section \<open>Vocabulary of the properties and example inputs\<close>

text \<open>The depth steps as the test suite writes them (src/tests/navigation.test.ts,
  \<open>getNextDepth\<close> and \<open>getPrevDepth\<close>).\<close>

definition getNextDepth :: "ViewDepth \<Rightarrow> ViewDepth" where
  "getNextDepth current =
     (if current = Summary then Expanded else if current = Expanded then Detail else Detail)"

definition getPrevDepth :: "ViewDepth \<Rightarrow> ViewDepth" where
  "getPrevDepth current =
     (if current = Detail then Expanded else if current = Expanded then Summary else Summary)"

text \<open>The answers on which \<open>exploreConcept\<close> reaches its \<open>catch\<close>: a rejected fetch, a
  response that is not \<open>ok\<close>, a body that cannot be read.\<close>

definition is_failure :: "'a Response \<Rightarrow> bool" where
  "is_failure resp = (case resp of Rejected msg \<Rightarrow> True | Response ok body \<Rightarrow> \<not> ok \<or> isl body)"

text \<open>What a run of the loop over the upcoming topics from \<open>i\<close> to \<open>e\<close> on the
  already-requested set \<open>seen\<close> guarantees of its result.\<close>

definition upcoming_ok ::
  "Topic list \<Rightarrow> int \<Rightarrow> int \<Rightarrow> string set \<Rightarrow> string set \<times> Topic list \<Rightarrow> bool" where
  "upcoming_ok ts i e seen r =
     (fst r = seen \<union> topic_id ` set (snd r)
      \<and> distinct (map topic_id (snd r))
      \<and> topic_id ` set (snd r) \<inter> seen = {}
      \<and> (\<forall>t\<in>set (snd r). \<exists>j. i \<le> j \<and> j < e \<and> at_index ts j = Some t)
      \<and> (\<forall>j t. i \<le> j \<and> j < e \<and> at_index ts j = Some t \<longrightarrow> topic_id t \<in> fst r))"

text \<open>The pattern \<open>pat\<close> occurs in \<open>s\<close> at position \<open>k\<close>.\<close>

definition occurs_at :: "string \<Rightarrow> string \<Rightarrow> nat \<Rightarrow> bool" where
  "occurs_at s pat k = (take (length pat) (drop k s) = pat)"

text \<open>The highlighted segment the loop body of \<open>segments\<close> pushes for a highlight, if
  it pushes one.\<close>

definition highlighted_segment :: "string \<Rightarrow> TopicHighlight \<Rightarrow> TextSegment option" where
  "highlighted_segment contents h =
     (case resolve_offsets contents h of
        None \<Rightarrow> None
      | Some (startIdx, endIdx) \<Rightarrow>
          Some \<lparr> segment_text = slice contents startIdx endIdx, isHighlight = True,
                 highlight = Some h \<rparr>)"

definition exampleTopic :: "string \<Rightarrow> string \<Rightarrow> string \<Rightarrow> TopicHighlight list \<Rightarrow> Topic" where
  "exampleTopic i t c hs = \<lparr> topic_id = i, title = t, summary = [], content = c, source = [],
     sourceUrl = [], timestamp = 0, category = General, highlights = hs \<rparr>"

definition threeTopics :: "Topic list" where
  "threeTopics = [exampleTopic ''t1'' ''One'' ''first'' [], exampleTopic ''t2'' ''Two'' ''second'' [],
     exampleTopic ''t3'' ''Three'' ''third'' []]"

definition emptyStorage :: Storage where
  "emptyStorage = \<lparr> item = None, getItem_throws = False, setItem_throws = False,
     removeItem_throws = False \<rparr>"

definition feedOfThree :: TopicFeedState where
  "feedOfThree = initialState\<lparr> topics := threeTopics, isLoading := False \<rparr>"

definition emptyConceptAtDetail :: TopicFeedState where
  "emptyConceptAtDetail = feedOfThree\<lparr> depth := Detail, currentConcept := Some [] \<rparr>"

definition exploringInFlight :: TopicFeedState where
  "exploringInFlight = feedOfThree\<lparr> currentConcept := Some ''qubit'', isExploringConcept := True \<rparr>"

definition emptyEntryCached :: TopicFeedState where
  "emptyEntryCached = feedOfThree\<lparr> conceptCache := [''quantum'' \<mapsto> Some []] \<rparr>"

definition spacedHighlight :: TopicHighlight where
  "spacedHighlight = \<lparr> highlight_id = ''h1'', highlight_text = ''Quantum '', startIndex = 0,
     endIndex = 0 \<rparr>"

definition duplicateIdBatch :: "TopicsData Response" where
  "duplicateIdBatch = Response True (Inr \<lparr> d_topics =
       [exampleTopic ''n1'' ''Alpha'' ''a'' [], exampleTopic ''n1'' ''Beta'' ''b'' []],
     d_mode = None, d_hasMore = None \<rparr>)"

definition freshEmptyEntry :: Storage where
  "freshEmptyEntry = emptyStorage\<lparr> item :=
     Some (Saved \<lparr> p_topics = [], p_currentIndex = 0, p_timestamp = 1000 \<rparr>) \<rparr>"

definition staleEntryStuck :: Storage where
  "staleEntryStuck = emptyStorage\<lparr> item :=
     Some (Saved \<lparr> p_topics = threeTopics, p_currentIndex = 1, p_timestamp = 0 \<rparr>),
     removeItem_throws := True \<rparr>"

definition freshEntry :: Storage where
  "freshEntry = emptyStorage\<lparr> item :=
     Some (Saved \<lparr> p_topics = threeTopics, p_currentIndex = 1, p_timestamp = 1000 \<rparr>) \<rparr>"

definition scientists :: string where
  "scientists = ''Scientists discovered a new quantum error correction method.''"

definition noQuantum :: string where
  "noQuantum = ''Scientists discovered a new method.''"

definition computingHighlight :: TopicHighlight where
  "computingHighlight = \<lparr> highlight_id = ''h2'', highlight_text = ''quantum computing'',
     startIndex = 0, endIndex = 0 \<rparr>"

definition qecHighlight :: TopicHighlight where
  "qecHighlight = \<lparr> highlight_id = ''h1-1'', highlight_text = ''quantum error correction'',
     startIndex = 0, endIndex = 0 \<rparr>"

section \<open>Verified properties\<close>

subsection \<open>Navigation\<close>

text \<open>
  C1 (corrected). The transition table of \<open>navigate\<close>, for every state, store and time:
  \<open>down\<close> advances \<open>currentIndex\<close> by one and resets \<open>depth\<close> to \<open>summary\<close> exactly when
  \<open>currentIndex + 1 < length topics\<close> and otherwise returns the state unchanged; \<open>up\<close> is
  the symmetric decrement, unchanged at index 0 (and below); \<open>right\<close> steps the depth
  \<open>summary\<close>, \<open>expanded\<close>, \<open>detail\<close> and stays at \<open>detail\<close>; \<open>left\<close> steps it back and
  stays at \<open>summary\<close>, except that when \<open>currentConcept\<close> is truthy (a non-empty string)
  \<open>left\<close> clears the concept fields and leaves depth and index as they are.
\<close>

theorem navigate_transition_table:
  "fst (navigate now Down (st, sto)) =
     (if currentIndex st + 1 < int (length (topics st))
      then st\<lparr> currentIndex := currentIndex st + 1, depth := Summary, direction := ScrollDown,
               currentConcept := None, conceptContent := None \<rparr>
      else st)
   \<and> fst (navigate now Up (st, sto)) =
     (if currentIndex st > 0
      then st\<lparr> currentIndex := currentIndex st - 1, depth := Summary, direction := ScrollUp,
               currentConcept := None, conceptContent := None \<rparr>
      else st)
   \<and> fst (navigate now Right (st, sto)) = st\<lparr> depth := getNextDepth (depth st) \<rparr>
   \<and> fst (navigate now Left (st, sto)) =
     (if truthy (currentConcept st)
      then st\<lparr> currentConcept := None, conceptContent := None, isExploringConcept := False \<rparr>
      else st\<lparr> depth := getPrevDepth (depth st) \<rparr>)"
  by (cases "depth st")
     (simp_all add: navigate_def navigate_update_def clearConceptExploration_def getNextDepth_def
        getPrevDepth_def Let_def)

theorem navigate_transition_table_witness:
  "fst (navigate 0 Down (feedOfThree, emptyStorage))
     = feedOfThree\<lparr> currentIndex := 1, depth := Summary, direction := ScrollDown,
                       currentConcept := None, conceptContent := None \<rparr>
   \<and> fst (navigate 0 Down (feedOfThree\<lparr> currentIndex := 2 \<rparr>, emptyStorage))
     = feedOfThree\<lparr> currentIndex := 2 \<rparr>
   \<and> fst (navigate 0 Up (feedOfThree, emptyStorage)) = feedOfThree
   \<and> fst (navigate 0 Right (feedOfThree\<lparr> depth := Detail \<rparr>, emptyStorage))
     = feedOfThree\<lparr> depth := Detail \<rparr>
   \<and> fst (navigate 0 Left (feedOfThree\<lparr> depth := Detail, currentConcept := Some ''qubit'' \<rparr>,
                             emptyStorage))
     = feedOfThree\<lparr> depth := Detail, currentConcept := None, conceptContent := None,
                       isExploringConcept := False \<rparr>"
  using navigate_transition_table [of 0 feedOfThree emptyStorage]
    navigate_transition_table [of 0 "feedOfThree\<lparr> currentIndex := 2 \<rparr>" emptyStorage]
    navigate_transition_table [of 0 "feedOfThree\<lparr> depth := Detail \<rparr>" emptyStorage]
    navigate_transition_table
      [of 0 "feedOfThree\<lparr> depth := Detail, currentConcept := Some ''qubit'' \<rparr>" emptyStorage]
  by (simp add: feedOfThree_def threeTopics_def initialState_def getNextDepth_def truthy_def)

text \<open>
  The claim as stated takes the overlay to be open whenever \<open>currentConcept\<close> is not null.
  With the empty string as the concept, which is not null, \<open>left\<close> at depth \<open>detail\<close>
  changes the depth and leaves the concept in place.
\<close>

theorem navigate_left_empty_concept_counterexample:
  "currentConcept emptyConceptAtDetail \<noteq> None
   \<and> depth (fst (navigate 0 Left (emptyConceptAtDetail, emptyStorage))) \<noteq> depth emptyConceptAtDetail
   \<and> currentConcept (fst (navigate 0 Left (emptyConceptAtDetail, emptyStorage))) \<noteq> None"
  by (simp add: emptyConceptAtDetail_def feedOfThree_def initialState_def navigate_def
        navigate_update_def truthy_def)

lemma navigate_topic_change:
  assumes "currentIndex (fst (navigate now dir (st, sto))) \<noteq> currentIndex st"
  shows "depth (fst (navigate now dir (st, sto))) = Summary
       \<and> currentConcept (fst (navigate now dir (st, sto))) = None
       \<and> conceptContent (fst (navigate now dir (st, sto))) = None
       \<and> isExploringConcept (fst (navigate now dir (st, sto))) = isExploringConcept st"
  using assms
  by (cases dir; cases "depth st")
     (auto simp add: navigate_def navigate_update_def clearConceptExploration_def Let_def
        split: if_splits)

text \<open>
  C2 (code defect). A \<open>down\<close> that changes the index while an explanation is loading
  resets \<open>depth\<close>, \<open>currentConcept\<close> and \<open>conceptContent\<close>, and leaves
  \<open>isExploringConcept\<close> set; \<open>clearConceptExploration\<close> on the same state resets it.
\<close>

theorem navigate_down_keeps_loading_flag:
  "currentIndex (fst (navigate 0 Down (exploringInFlight, emptyStorage))) = 1
   \<and> depth (fst (navigate 0 Down (exploringInFlight, emptyStorage))) = Summary
   \<and> currentConcept (fst (navigate 0 Down (exploringInFlight, emptyStorage))) = None
   \<and> conceptContent (fst (navigate 0 Down (exploringInFlight, emptyStorage))) = None
   \<and> isExploringConcept (fst (navigate 0 Down (exploringInFlight, emptyStorage))) = True
   \<and> isExploringConcept (clearConceptExploration exploringInFlight) = False"
  by (simp add: exploringInFlight_def feedOfThree_def threeTopics_def initialState_def
        navigate_def navigate_update_def Let_def clearConceptExploration_def truthy_def)

subsection \<open>Concept exploration\<close>

lemma normalizeConcept_Quantum: "normalizeConcept ''Quantum'' = ''quantum''"
  by code_simp

lemma normalizeConcept_quantum_space: "normalizeConcept ''quantum '' = ''quantum''"
  by code_simp

lemma feedOfThree_current:
  "at_index (topics feedOfThree) (currentIndex feedOfThree)
     = Some (exampleTopic ''t1'' ''One'' ''first'' [])"
  by (simp add: feedOfThree_def threeTopics_def initialState_def at_index_def)

lemma exploreConcept_begin_hit:
  "truthy_value (lookup (conceptCache st) (normalizeConcept concept)) \<Longrightarrow>
   exploreConcept_begin st concept =
     (st\<lparr> currentConcept := Some concept,
          conceptContent := lookup (conceptCache st) (normalizeConcept concept),
          isExploringConcept := False \<rparr>, None)"
  by (simp add: exploreConcept_begin_def Let_def)

lemma exploreConcept_begin_miss:
  "\<not> truthy_value (lookup (conceptCache st) (normalizeConcept concept)) \<Longrightarrow>
   exploreConcept_begin st concept =
     (st\<lparr> currentConcept := Some concept, conceptContent := None, isExploringConcept := True \<rparr>,
      Some (PostExplore concept
              (map_option topic_id (at_index (topics st) (currentIndex st)))
              (map_option content (at_index (topics st) (currentIndex st)))))"
  by (simp add: exploreConcept_begin_def Let_def)

lemma exploreConcept_hit:
  "truthy_value (lookup (conceptCache st) (normalizeConcept y)) \<Longrightarrow>
   exploreConcept st y resp =
     (st\<lparr> currentConcept := Some y,
          conceptContent := lookup (conceptCache st) (normalizeConcept y),
          isExploringConcept := False \<rparr>, [])"
  by (simp add: exploreConcept_def exploreConcept_begin_hit)

lemma exploreConcept_complete_failure:
  "is_failure resp \<Longrightarrow> exploreConcept_complete st concept resp = exploreConcept_failed st concept"
  by (cases resp) (auto simp add: is_failure_def exploreConcept_complete_def split: sum.splits)

lemma exploreConcept_success_caches:
  assumes "truthy_value (lookup (conceptCache st) (normalizeConcept x))
           \<or> (resp1 = Response True (Inr (Some c)) \<and> c \<noteq> [])"
  shows "truthy_value (lookup (conceptCache (fst (exploreConcept st x resp1))) (normalizeConcept x))"
proof (cases "truthy_value (lookup (conceptCache st) (normalizeConcept x))")
  case True
  then show ?thesis by (simp add: exploreConcept_def exploreConcept_begin_hit)
next
  case False
  with assms show ?thesis
    by (simp add: exploreConcept_def exploreConcept_begin_miss exploreConcept_complete_def
          lookup_def objectPrototypeKeys_def truthy_value_def)
qed

lemma exploreConcept_requests_le_1: "length (snd (exploreConcept st x resp)) \<le> 1"
  by (cases "truthy_value (lookup (conceptCache st) (normalizeConcept x))")
     (simp_all add: exploreConcept_def exploreConcept_begin_hit exploreConcept_begin_miss)

text \<open>
  C3 (corrected). The cache key of \<open>exploreConcept\<close> is the trimmed, lower-cased text, so
  two texts with the same normalised form address one cache entry. When the first of two
  calls in a row is a cache hit or is answered with a non-empty explanation, the cache
  holds a non-empty entry for the key once the call has completed, and the second call,
  on any text with that normalised form, is a cache hit: it sets \<open>currentConcept\<close> to the
  text it was given, \<open>conceptContent\<close> to the cached value and the loading flag to false,
  and issues no request; the two calls together issue at most one request.
\<close>

theorem exploreConcept_twice:
  assumes "normalizeConcept y = normalizeConcept x"
    and "truthy_value (lookup (conceptCache st) (normalizeConcept x))
         \<or> (resp1 = Response True (Inr (Some c)) \<and> c \<noteq> [])"
  shows "exploreConcept (fst (exploreConcept st x resp1)) y resp2 =
       ((fst (exploreConcept st x resp1))
          \<lparr> currentConcept := Some y,
            conceptContent :=
              lookup (conceptCache (fst (exploreConcept st x resp1))) (normalizeConcept x),
            isExploringConcept := False \<rparr>, [])
   \<and> truthy_value (lookup (conceptCache (fst (exploreConcept st x resp1))) (normalizeConcept x))
   \<and> length (snd (exploreConcept st x resp1))
       + length (snd (exploreConcept (fst (exploreConcept st x resp1)) y resp2)) \<le> 1"
proof -
  let ?st1 = "fst (exploreConcept st x resp1)"
  have t: "truthy_value (lookup (conceptCache ?st1) (normalizeConcept y))"
    using assms exploreConcept_success_caches [of st x resp1 c] by simp
  have second: "exploreConcept ?st1 y resp2 =
      (?st1\<lparr> currentConcept := Some y,
            conceptContent := lookup (conceptCache ?st1) (normalizeConcept y),
            isExploringConcept := False \<rparr>, [])"
    by (rule exploreConcept_hit [OF t])
  have "length (snd (exploreConcept st x resp1)) \<le> 1"
    by (rule exploreConcept_requests_le_1)
  with t second assms(1) show ?thesis by simp
qed

theorem exploreConcept_twice_witness:
  "normalizeConcept ''quantum '' = normalizeConcept ''Quantum''
   \<and> exploreConcept (fst (exploreConcept feedOfThree ''Quantum'' (Response True (Inr (Some ''Q'')))))
        ''quantum '' (Rejected ''offline'')
      = (feedOfThree\<lparr> currentConcept := Some ''quantum '', conceptContent := Some (Str ''Q''),
                       isExploringConcept := False,
                       conceptCache := [''quantum'' \<mapsto> Some ''Q''] \<rparr>, [])
   \<and> snd (exploreConcept feedOfThree ''Quantum'' (Response True (Inr (Some ''Q''))))
      = [PostExplore ''Quantum'' (Some ''t1'') (Some ''first'')]"
proof -
  have n: "normalizeConcept ''quantum '' = normalizeConcept ''Quantum''"
    by (simp add: normalizeConcept_Quantum normalizeConcept_quantum_space)
  have c: "truthy_value (lookup (conceptCache feedOfThree) (normalizeConcept ''Quantum''))
           \<or> ((Response True (Inr (Some ''Q'')) :: (string option) Response)
                  = Response True (Inr (Some ''Q'')) \<and> ''Q'' \<noteq> [])" by simp
  have first: "exploreConcept feedOfThree ''Quantum'' (Response True (Inr (Some ''Q'')))
     = (feedOfThree\<lparr> currentConcept := Some ''Quantum'', conceptContent := Some (Str ''Q''),
                      isExploringConcept := False,
                      conceptCache := [''quantum'' \<mapsto> Some ''Q''] \<rparr>,
        [PostExplore ''Quantum'' (Some ''t1'') (Some ''first'')])"
    by (simp add: normalizeConcept_Quantum exploreConcept_def exploreConcept_begin_def
        exploreConcept_complete_def feedOfThree_def initialState_def threeTopics_def
        exampleTopic_def at_index_def lookup_def objectPrototypeKeys_def truthy_value_def Let_def)
  from exploreConcept_twice [OF n c, of "Rejected ''offline''"] n first
  show ?thesis by (simp add: normalizeConcept_Quantum lookup_def objectPrototypeKeys_def)
qed

text \<open>
  Without the condition on the first answer the claim fails: when the first request is
  rejected nothing is cached, and the second call on the same text issues a second request.
\<close>

theorem exploreConcept_twice_counterexample:
  "length (snd (exploreConcept feedOfThree ''Quantum'' (Rejected ''offline'')))
     + length (snd (exploreConcept
                      (fst (exploreConcept feedOfThree ''Quantum'' (Rejected ''offline'')))
                      ''Quantum'' (Rejected ''offline''))) = 2"
  by (simp add: normalizeConcept_Quantum exploreConcept_def exploreConcept_begin_def
        exploreConcept_complete_def exploreConcept_failed_def feedOfThree_def initialState_def
        lookup_def objectPrototypeKeys_def truthy_value_def Let_def)

text \<open>
  C4 (corrected). When the request that \<open>exploreConcept\<close> issues fails, the call returns a
  state (nothing is thrown) after exactly one request (no retry): \<open>conceptContent\<close> is the
  message \<open>Unable to research "<text>" at this time. Please try again.\<close> with the original
  text, the loading flag is false, and \<open>conceptCache\<close> is what it was before the call.
\<close>

theorem exploreConcept_failure:
  assumes "\<not> truthy_value (lookup (conceptCache st) (normalizeConcept concept))"
    and "is_failure resp"
  shows "exploreConcept st concept resp =
           (st\<lparr> currentConcept := Some concept,
                 conceptContent :=
                   Some (Str (''Unable to research '' @ [CHR 0x22] @ concept @ [CHR 0x22]
                                @ '' at this time. Please try again.'')),
                 isExploringConcept := False \<rparr>,
            [PostExplore concept
               (map_option topic_id (at_index (topics st) (currentIndex st)))
               (map_option content (at_index (topics st) (currentIndex st)))])
         \<and> conceptCache (fst (exploreConcept st concept resp)) = conceptCache st"
  using assms
  by (simp add: exploreConcept_def exploreConcept_begin_miss exploreConcept_complete_failure
        exploreConcept_failed_def unableToResearch_def)

theorem exploreConcept_failure_witness:
  "\<not> truthy_value (lookup (conceptCache feedOfThree) (normalizeConcept ''Quantum''))
   \<and> is_failure (Response False (Inr None) :: (string option) Response)
   \<and> exploreConcept feedOfThree ''Quantum'' (Response False (Inr None)) =
       (feedOfThree\<lparr> currentConcept := Some ''Quantum'',
                      conceptContent :=
                        Some (Str (''Unable to research '' @ [CHR 0x22] @ ''Quantum''
                                     @ [CHR 0x22] @ '' at this time. Please try again.'')),
                      isExploringConcept := False \<rparr>,
        [PostExplore ''Quantum'' (Some ''t1'') (Some ''first'')])"
proof -
  have h1: "\<not> truthy_value (lookup (conceptCache feedOfThree) (normalizeConcept ''Quantum''))"
    by (simp add: normalizeConcept_Quantum feedOfThree_def initialState_def lookup_def
          objectPrototypeKeys_def truthy_value_def)
  have h2: "is_failure (Response False (Inr None) :: (string option) Response)"
    by (simp add: is_failure_def)
  from h1 h2 exploreConcept_failure [OF h1 h2] feedOfThree_current show ?thesis
    by (simp add: exampleTopic_def)
qed

text \<open>
  The claim as stated fails twice at one input: the message ends in
  \<open>Please try again.\<close>, and a cache that held an empty entry for the key before the call
  still holds it afterwards.
\<close>

theorem exploreConcept_failure_counterexample:
  "conceptContent (fst (exploreConcept emptyEntryCached ''quantum'' (Rejected ''offline'')))
     \<noteq> Some (Str (''Unable to research '' @ [CHR 0x22] @ ''quantum'' @ [CHR 0x22]
                      @ '' at this time.''))
   \<and> conceptCache (fst (exploreConcept emptyEntryCached ''quantum'' (Rejected ''offline'')))
        (normalizeConcept ''quantum'') \<noteq> None"
proof -
  have n: "normalizeConcept ''quantum'' = ''quantum''" by code_simp
  show ?thesis
    by (simp add: n exploreConcept_def exploreConcept_begin_def exploreConcept_complete_def
          exploreConcept_failed_def unableToResearch_def emptyEntryCached_def lookup_def objectPrototypeKeys_def
          truthy_value_def Let_def)
qed

text \<open>
  C10 (confirmed). The cache check of \<open>exploreConcept\<close> is a truthiness check: when the
  cache holds the empty string or \<open>undefined\<close> under the normalised key, or holds nothing
  under it and the key is not a property name of \<open>Object.prototype\<close> (so that the read is
  \<open>undefined\<close>), the call takes the miss path, setting the loading flag and issuing a
  request.
\<close>

theorem exploreConcept_falsy_cache_entry_is_miss:
  assumes "conceptCache st (normalizeConcept concept) = Some (Some [])
           \<or> conceptCache st (normalizeConcept concept) = Some None
           \<or> (conceptCache st (normalizeConcept concept) = None
                \<and> normalizeConcept concept \<notin> set objectPrototypeKeys)"
  shows "exploreConcept_begin st concept =
           (st\<lparr> currentConcept := Some concept, conceptContent := None,
                 isExploringConcept := True \<rparr>,
            Some (PostExplore concept
                    (map_option topic_id (at_index (topics st) (currentIndex st)))
                    (map_option content (at_index (topics st) (currentIndex st)))))"
  using assms by (auto simp add: exploreConcept_begin_def lookup_def truthy_value_def Let_def)

theorem exploreConcept_falsy_cache_entry_is_miss_witness:
  "conceptCache emptyEntryCached (normalizeConcept ''Quantum'') = Some (Some [])
   \<and> exploreConcept_begin emptyEntryCached ''Quantum'' =
       (emptyEntryCached\<lparr> currentConcept := Some ''Quantum'', conceptContent := None,
                           isExploringConcept := True \<rparr>,
        Some (PostExplore ''Quantum'' (Some ''t1'') (Some ''first'')))
   \<and> conceptCache feedOfThree (normalizeConcept ''Quantum'') = None
   \<and> normalizeConcept ''Quantum'' \<notin> set objectPrototypeKeys
   \<and> exploreConcept_begin feedOfThree ''Quantum'' =
       (feedOfThree\<lparr> currentConcept := Some ''Quantum'', conceptContent := None,
                      isExploringConcept := True \<rparr>,
        Some (PostExplore ''Quantum'' (Some ''t1'') (Some ''first'')))"
proof -
  have h: "conceptCache emptyEntryCached (normalizeConcept ''Quantum'') = Some (Some [])"
    by (simp add: normalizeConcept_Quantum emptyEntryCached_def)
  have "at_index (topics emptyEntryCached) (currentIndex emptyEntryCached)
          = Some (exampleTopic ''t1'' ''One'' ''first'' [])"
    by (simp add: emptyEntryCached_def feedOfThree_def threeTopics_def initialState_def
          at_index_def)
  with h exploreConcept_falsy_cache_entry_is_miss [of emptyEntryCached "''Quantum''"]
  have one: "exploreConcept_begin emptyEntryCached ''Quantum'' =
       (emptyEntryCached\<lparr> currentConcept := Some ''Quantum'', conceptContent := None,
                           isExploringConcept := True \<rparr>,
        Some (PostExplore ''Quantum'' (Some ''t1'') (Some ''first'')))"
    by (simp add: exampleTopic_def)
  have n: "conceptCache feedOfThree (normalizeConcept ''Quantum'') = None"
    by (simp add: feedOfThree_def initialState_def)
  have k: "normalizeConcept ''Quantum'' \<notin> set objectPrototypeKeys"
    by (simp add: normalizeConcept_Quantum objectPrototypeKeys_def)
  from n k feedOfThree_current
    exploreConcept_falsy_cache_entry_is_miss [of feedOfThree "''Quantum''"]
  have two: "exploreConcept_begin feedOfThree ''Quantum'' =
       (feedOfThree\<lparr> currentConcept := Some ''Quantum'', conceptContent := None,
                      isExploringConcept := True \<rparr>,
        Some (PostExplore ''Quantum'' (Some ''t1'') (Some ''first'')))"
    by (simp add: exampleTopic_def)
  from h one n k two show ?thesis by blast
qed

text \<open>A key that names a member of \<open>Object.prototype\<close> and has no entry of its own reads
  as that member, which is truthy: the call takes the hit path and issues no request.\<close>

lemma exploreConcept_inherited_key_is_hit:
  assumes "conceptCache st (normalizeConcept concept) = None"
    and "normalizeConcept concept \<in> set objectPrototypeKeys"
  shows "exploreConcept_begin st concept =
           (st\<lparr> currentConcept := Some concept,
                 conceptContent := Some (Inherited (normalizeConcept concept)),
                 isExploringConcept := False \<rparr>, None)"
  using assms by (simp add: exploreConcept_begin_def lookup_def truthy_value_def Let_def)

lemma exploreConcept_constructor_is_hit:
  "exploreConcept_begin feedOfThree ''constructor'' =
     (feedOfThree\<lparr> currentConcept := Some ''constructor'',
                    conceptContent := Some (Inherited ''constructor''),
                    isExploringConcept := False \<rparr>, None)"
proof -
  have n: "normalizeConcept ''constructor'' = ''constructor''" by code_simp
  have "conceptCache feedOfThree (normalizeConcept ''constructor'') = None"
    by (simp add: feedOfThree_def initialState_def)
  moreover have "normalizeConcept ''constructor'' \<in> set objectPrototypeKeys"
    by (simp add: n objectPrototypeKeys_def)
  ultimately show ?thesis
    using exploreConcept_inherited_key_is_hit [of feedOfThree "''constructor''"] by (simp add: n)
qed

subsection \<open>Prefetch\<close>

lemma prefetch_complete_key:
  "conceptCache (prefetch_complete st h (Response ok (Inr data_content)))
     = (conceptCache st)(toLowerCase (highlight_text h) \<mapsto> data_content)"
  by (simp add: prefetch_complete_def)

lemma prefetch_then_explore_hit:
  assumes "trim (toLowerCase (highlight_text h)) = toLowerCase (highlight_text h)"
    and "c \<noteq> []"
  shows "exploreConcept_begin (prefetch_complete st h (Response ok (Inr (Some c))))
           (highlight_text h)
         = ((prefetch_complete st h (Response ok (Inr (Some c))))
              \<lparr> currentConcept := Some (highlight_text h), conceptContent := Some (Str c),
                isExploringConcept := False \<rparr>, None)"
  using assms
  by (simp add: exploreConcept_begin_def prefetch_complete_key normalizeConcept_def lookup_def objectPrototypeKeys_def
        truthy_value_def Let_def)

text \<open>
  C5 (code defect). A prefetch answered with an explanation stores it under the
  lower-cased highlight text, not trimmed: for the highlight text \<open>Quantum\<close> followed by
  a space the entry is under the key with the space, while \<open>exploreConcept\<close> on the same
  text looks under the trimmed key, misses, and issues a request.
\<close>

theorem prefetch_key_not_trimmed:
  "conceptCache (prefetch_complete feedOfThree spacedHighlight (Response True (Inr (Some ''Q''))))
     = [''quantum '' \<mapsto> Some ''Q'']
   \<and> normalizeConcept (highlight_text spacedHighlight) = ''quantum''
   \<and> snd (exploreConcept_begin
            (prefetch_complete feedOfThree spacedHighlight (Response True (Inr (Some ''Q''))))
            (highlight_text spacedHighlight))
       = Some (PostExplore ''Quantum '' (Some ''t1'') (Some ''first''))"
proof -
  have l: "toLowerCase ''Quantum '' = ''quantum ''" by code_simp
  have n: "normalizeConcept ''Quantum '' = ''quantum''" by code_simp
  show ?thesis
    by (simp add: l n prefetch_complete_def spacedHighlight_def exploreConcept_begin_def
          feedOfThree_def initialState_def threeTopics_def exampleTopic_def at_index_def
          lookup_def objectPrototypeKeys_def truthy_value_def Let_def)
qed

lemma expand_id_buildExpandUrl: "expand_id (buildExpandUrl t) = Some (topic_id t)"
  by (simp add: buildExpandUrl_def)

lemma preload_upcoming_stop: "\<not> i < e \<Longrightarrow> preload_upcoming ts i e seen = (seen, [])"
  by (simp add: preload_upcoming.simps [of ts i e seen])

lemma preload_upcoming_none:
  "i < e \<Longrightarrow> at_index ts i = None \<Longrightarrow>
   preload_upcoming ts i e seen = preload_upcoming ts (i + 1) e seen"
  by (simp add: preload_upcoming.simps [of ts i e seen])

lemma preload_upcoming_old:
  "i < e \<Longrightarrow> at_index ts i = Some t \<Longrightarrow> topic_id t \<in> seen \<Longrightarrow>
   preload_upcoming ts i e seen = preload_upcoming ts (i + 1) e seen"
  by (simp add: preload_upcoming.simps [of ts i e seen])

lemma preload_upcoming_new:
  "i < e \<Longrightarrow> at_index ts i = Some t \<Longrightarrow> topic_id t \<notin> seen \<Longrightarrow>
   preload_upcoming ts i e seen =
     (fst (preload_upcoming ts (i + 1) e (insert (topic_id t) seen)),
      t # snd (preload_upcoming ts (i + 1) e (insert (topic_id t) seen)))"
  by (simp add: preload_upcoming.simps [of ts i e seen] split: prod.splits)

lemma upcoming_ok_step:
  assumes "i < e" and "upcoming_ok ts (i + 1) e seen r"
    and "\<And>t. at_index ts i = Some t \<Longrightarrow> topic_id t \<in> seen"
  shows "upcoming_ok ts i e seen r"
proof -
  have a: "\<And>j. i \<le> j \<Longrightarrow> j \<noteq> i \<Longrightarrow> i + 1 \<le> j" by arith
  from assms(2) have "\<forall>t\<in>set (snd r). \<exists>j. i \<le> j \<and> j < e \<and> at_index ts j = Some t"
    unfolding upcoming_ok_def by (meson add_increasing2 order_trans zle_add1_eq_le less_imp_le zless_add1_eq)
  moreover have "\<forall>j t. i \<le> j \<and> j < e \<and> at_index ts j = Some t \<longrightarrow> topic_id t \<in> fst r"
  proof (intro allI impI)
    fix j t assume h: "i \<le> j \<and> j < e \<and> at_index ts j = Some t"
    show "topic_id t \<in> fst r"
    proof (cases "j = i")
      case True
      with h assms(3) have "topic_id t \<in> seen" by simp
      with assms(2) show ?thesis unfolding upcoming_ok_def by blast
    next
      case False
      with h a have "i + 1 \<le> j" by simp
      with h assms(2) show ?thesis unfolding upcoming_ok_def by blast
    qed
  qed
  ultimately show ?thesis using assms(2) unfolding upcoming_ok_def by simp
qed

lemma upcoming_ok_new:
  assumes "i < e" and "at_index ts i = Some t" and "topic_id t \<notin> seen"
    and "upcoming_ok ts (i + 1) e (insert (topic_id t) seen) r"
  shows "upcoming_ok ts i e seen (fst r, t # snd r)"
proof -
  from assms(4) have r1: "fst r = insert (topic_id t) seen \<union> topic_id ` set (snd r)"
    and r2: "distinct (map topic_id (snd r))"
    and r3: "topic_id ` set (snd r) \<inter> insert (topic_id t) seen = {}"
    and r4: "\<forall>u\<in>set (snd r). \<exists>j. i + 1 \<le> j \<and> j < e \<and> at_index ts j = Some u"
    and r5: "\<forall>j u. i + 1 \<le> j \<and> j < e \<and> at_index ts j = Some u \<longrightarrow> topic_id u \<in> fst r"
    unfolding upcoming_ok_def by blast+
  have a: "\<And>j. i \<le> j \<Longrightarrow> j \<noteq> i \<Longrightarrow> i + 1 \<le> j" by arith
  have c1: "fst r = seen \<union> topic_id ` set (t # snd r)" using r1 by auto
  have c2: "distinct (map topic_id (t # snd r))" using r2 r3 by auto
  have c3: "topic_id ` set (t # snd r) \<inter> seen = {}" using r3 assms(3) by auto
  have c4: "\<forall>u\<in>set (t # snd r). \<exists>j. i \<le> j \<and> j < e \<and> at_index ts j = Some u"
  proof
    fix u assume "u \<in> set (t # snd r)"
    then consider "u = t" | "u \<in> set (snd r)" by auto
    then show "\<exists>j. i \<le> j \<and> j < e \<and> at_index ts j = Some u"
    proof cases
      case 1
      with assms(1,2) show ?thesis by (intro exI [of _ i]) simp
    next
      case 2
      with r4 obtain j where "i + 1 \<le> j \<and> j < e \<and> at_index ts j = Some u" by blast
      then show ?thesis by (intro exI [of _ j]) simp
    qed
  qed
  have c5: "\<forall>j u. i \<le> j \<and> j < e \<and> at_index ts j = Some u \<longrightarrow> topic_id u \<in> fst r"
  proof (intro allI impI)
    fix j u assume h: "i \<le> j \<and> j < e \<and> at_index ts j = Some u"
    show "topic_id u \<in> fst r"
    proof (cases "j = i")
      case True
      with h assms(2) have "u = t" by simp
      with r1 show ?thesis by simp
    next
      case False
      with h a have "i + 1 \<le> j" by simp
      with h r5 show ?thesis by blast
    qed
  qed
  from c1 c2 c3 c4 c5 show ?thesis unfolding upcoming_ok_def by simp
qed

lemma preload_upcoming_ok: "upcoming_ok ts i e seen (preload_upcoming ts i e seen)"
proof (induction ts i e seen rule: preload_upcoming.induct)
  case (1 ts i endIdx seen)
  show ?case
  proof (cases "i < endIdx")
    case False
    then show ?thesis by (auto simp add: preload_upcoming_stop upcoming_ok_def)
  next
    case lt: True
    show ?thesis
    proof (cases "at_index ts i")
      case None
      from "1.IH"(1) [OF lt None]
      have "upcoming_ok ts i endIdx seen (preload_upcoming ts (i + 1) endIdx seen)"
        by (rule upcoming_ok_step [OF lt]) (simp add: None)
      with lt None show ?thesis by (simp add: preload_upcoming_none)
    next
      case (Some t)
      show ?thesis
      proof (cases "topic_id t \<in> seen")
        case True
        from "1.IH"(3) [OF lt Some] True
        have "upcoming_ok ts i endIdx seen (preload_upcoming ts (i + 1) endIdx seen)"
          by (intro upcoming_ok_step [OF lt]) (simp_all add: Some)
        with lt Some True show ?thesis by (simp add: preload_upcoming_old)
      next
        case False
        from "1.IH"(2) [OF lt Some False] 
        have "upcoming_ok ts (i + 1) endIdx (insert (topic_id t) seen)
                (preload_upcoming ts (i + 1) endIdx (insert (topic_id t) seen))" .
        from upcoming_ok_new [OF lt Some False this] lt Some False show ?thesis
          by (simp add: preload_upcoming_new)
      qed
    qed
  qed
qed


lemmas upcoming_okD = preload_upcoming_ok [unfolded upcoming_ok_def]

lemma preload_current_log:
  assumes "preload_current st refs = (refs1, creqs, hreqs)"
  shows "\<exists>ids. map expand_id creqs = map Some ids \<and> distinct ids
           \<and> set ids \<inter> preloadedRef refs = {}
           \<and> preloadedRef refs1 = preloadedRef refs \<union> set ids"
proof (cases "at_index (topics st) (currentIndex st)")
  case None
  with assms have "creqs = []" "refs1 = refs" by (simp_all add: preload_current_def)
  then show ?thesis by simp
next
  case (Some t)
  show ?thesis
  proof (cases "topic_id t \<in> preloadedRef refs")
    case True
    with Some assms have "creqs = []" "refs1 = refs" by (simp_all add: preload_current_def)
    then show ?thesis by simp
  next
    case False
    with Some assms have "creqs = [buildExpandUrl t]"
      "preloadedRef refs1 = insert (topic_id t) (preloadedRef refs)"
      by (auto simp add: preload_current_def split: prod.splits)
    with False show ?thesis
      by (intro exI [of _ "[topic_id t]"]) (simp add: expand_id_buildExpandUrl)
  qed
qed

lemma preloadTopics_split:
  assumes "preloadTopics pc st refs = (refs', creqs, hreqs, ureqs)"
  shows "\<exists>refs1. preload_current st refs = (refs1, creqs, hreqs)
           \<and> ureqs = map buildExpandUrl
                 (snd (preload_upcoming (topics st) (currentIndex st + 1)
                         (min (currentIndex st + pc + 1) (int (length (topics st))))
                         (preloadedRef refs1)))
           \<and> preloadedRef refs' =
                 fst (preload_upcoming (topics st) (currentIndex st + 1)
                         (min (currentIndex st + pc + 1) (int (length (topics st))))
                         (preloadedRef refs1))"
  using assms by (auto simp add: preloadTopics_def Let_def split: prod.splits)

lemma preloadTopics_log:
  assumes "preloadTopics pc st refs = (refs', creqs, hreqs, ureqs)"
  shows "\<exists>ids. map expand_id (creqs @ ureqs) = map Some ids \<and> distinct ids
           \<and> set ids \<inter> preloadedRef refs = {}
           \<and> preloadedRef refs' = preloadedRef refs \<union> set ids"
proof -
  let ?ts = "topics st" and ?idx = "currentIndex st"
  let ?e = "min (?idx + pc + 1) (int (length ?ts))"
  from preloadTopics_split [OF assms] obtain refs1 where
    cur: "preload_current st refs = (refs1, creqs, hreqs)"
    and u: "ureqs = map buildExpandUrl (snd (preload_upcoming ?ts (?idx + 1) ?e (preloadedRef refs1)))"
    and p: "preloadedRef refs' = fst (preload_upcoming ?ts (?idx + 1) ?e (preloadedRef refs1))"
    by blast
  let ?r = "preload_upcoming ?ts (?idx + 1) ?e (preloadedRef refs1)"
  from preload_current_log [OF cur] obtain ids1 where
    i1: "map expand_id creqs = map Some ids1" "distinct ids1"
      "set ids1 \<inter> preloadedRef refs = {}" "preloadedRef refs1 = preloadedRef refs \<union> set ids1"
    by blast
  from upcoming_okD [of ?ts "?idx + 1" ?e "preloadedRef refs1"]
  have f: "fst ?r = preloadedRef refs1 \<union> topic_id ` set (snd ?r)"
    and d: "distinct (map topic_id (snd ?r))"
    and n: "topic_id ` set (snd ?r) \<inter> preloadedRef refs1 = {}" by blast+
  let ?ids = "ids1 @ map topic_id (snd ?r)"
  have "map expand_id (creqs @ ureqs) = map Some ?ids"
    by (simp add: i1(1) u expand_id_buildExpandUrl comp_def)
  moreover have "distinct ?ids" using d n i1(2) i1(4) by auto
  moreover have "set ?ids \<inter> preloadedRef refs = {}" using n i1(3) i1(4) by auto
  moreover have "preloadedRef refs' = preloadedRef refs \<union> set ?ids" using p f i1(4) by auto
  ultimately show ?thesis by blast
qed

lemma preload_session_log:
  "preload_session pc sts refs = (refs', reqs) \<Longrightarrow>
   \<exists>ids. map expand_id reqs = map Some ids \<and> distinct ids
         \<and> set ids \<inter> preloadedRef refs = {}
         \<and> preloadedRef refs' = preloadedRef refs \<union> set ids"
proof (induction sts arbitrary: refs refs' reqs)
  case Nil
  then show ?case by auto
next
  case (Cons st sts)
  obtain refs1 creqs hreqs ureqs where
    one: "preloadTopics pc st refs = (refs1, creqs, hreqs, ureqs)"
    by (cases "preloadTopics pc st refs") auto
  obtain refs2 reqs2 where rest: "preload_session pc sts refs1 = (refs2, reqs2)"
    by (cases "preload_session pc sts refs1") auto
  from Cons.prems one rest have eq: "refs' = refs2" "reqs = creqs @ ureqs @ reqs2" by simp_all
  from preloadTopics_log [OF one] obtain ids1 where
    i1: "map expand_id (creqs @ ureqs) = map Some ids1" "distinct ids1"
      "set ids1 \<inter> preloadedRef refs = {}" "preloadedRef refs1 = preloadedRef refs \<union> set ids1"
    by blast
  from Cons.IH [OF rest] obtain ids2 where
    i2: "map expand_id reqs2 = map Some ids2" "distinct ids2"
      "set ids2 \<inter> preloadedRef refs1 = {}" "preloadedRef refs2 = preloadedRef refs1 \<union> set ids2"
    by blast
  have "map expand_id reqs = map Some (ids1 @ ids2)" using eq i1(1) i2(1) by simp
  moreover have "distinct (ids1 @ ids2)" using i1(2) i2(2) i2(3) i1(4) by auto
  moreover have "set (ids1 @ ids2) \<inter> preloadedRef refs = {}" using i1(3) i2(3) i1(4) by auto
  moreover have "preloadedRef refs' = preloadedRef refs \<union> set (ids1 @ ids2)"
    using eq i1(4) i2(4) by auto
  ultimately show ?case by blast
qed

lemma at_most_once:
  assumes "map f xs = map Some ids" and "distinct ids"
  shows "length (filter (\<lambda>x. f x = Some i) xs) \<le> 1"
proof -
  have "length (filter (\<lambda>x. f x = Some i) xs) = length (filter (\<lambda>y. y = Some i) (map f xs))"
    by (simp add: filter_map comp_def)
  also have "\<dots> = length (filter (\<lambda>y. y = Some i) (map Some ids))" using assms(1) by simp
  also have "\<dots> = length (filter (\<lambda>y. y = i) ids)" by (simp add: filter_map comp_def)
  also have "\<dots> = count_list ids i" by (induction ids) auto
  also have "\<dots> \<le> 1" using assms(2) by (induction ids) (auto simp add: count_list_0_iff)
  finally show ?thesis .
qed

lemma at_index_Some: "at_index xs j = Some x \<longleftrightarrow> 0 \<le> j \<and> j < int (length xs) \<and> x = xs ! nat j"
  by (auto simp add: at_index_def)

lemma preloadTopics_range:
  assumes "preloadTopics pc st refs = (refs', creqs, hreqs, ureqs)"
  shows "(\<forall>r\<in>set ureqs. \<exists>j. currentIndex st + 1 \<le> j
            \<and> j < min (currentIndex st + pc + 1) (int (length (topics st)))
            \<and> 0 \<le> j \<and> j < int (length (topics st))
            \<and> r = buildExpandUrl (topics st ! nat j))
       \<and> (\<forall>j. currentIndex st + 1 \<le> j
                \<and> j < min (currentIndex st + pc + 1) (int (length (topics st))) \<and> 0 \<le> j
              \<longrightarrow> topic_id (topics st ! nat j) \<in> preloadedRef refs')"
proof -
  let ?ts = "topics st" and ?idx = "currentIndex st"
  let ?e = "min (?idx + pc + 1) (int (length ?ts))"
  from preloadTopics_split [OF assms] obtain refs1 :: Refs where
    u: "ureqs = map buildExpandUrl (snd (preload_upcoming ?ts (?idx + 1) ?e (preloadedRef refs1)))"
    and p: "preloadedRef refs' = fst (preload_upcoming ?ts (?idx + 1) ?e (preloadedRef refs1))"
    by blast
  define P where "P = preloadedRef refs1"
  note u = u [folded P_def] and p = p [folded P_def]
  let ?r = "preload_upcoming ?ts (?idx + 1) ?e P"
  from upcoming_okD [of ?ts "?idx + 1" ?e P]
  have w: "\<forall>t\<in>set (snd ?r). \<exists>j. ?idx + 1 \<le> j \<and> j < ?e \<and> at_index ?ts j = Some t"
    and c: "\<forall>j t. ?idx + 1 \<le> j \<and> j < ?e \<and> at_index ?ts j = Some t \<longrightarrow> topic_id t \<in> fst ?r"
    by blast+
  have one: "\<forall>r\<in>set ureqs. \<exists>j. ?idx + 1 \<le> j \<and> j < ?e \<and> 0 \<le> j \<and> j < int (length ?ts)
               \<and> r = buildExpandUrl (?ts ! nat j)"
  proof
    fix r assume "r \<in> set ureqs"
    with u obtain t where t: "t \<in> set (snd ?r)" "r = buildExpandUrl t" by auto
    with w obtain j where "?idx + 1 \<le> j \<and> j < ?e \<and> at_index ?ts j = Some t" by blast
    with t(2) show "\<exists>j. ?idx + 1 \<le> j \<and> j < ?e \<and> 0 \<le> j \<and> j < int (length ?ts)
               \<and> r = buildExpandUrl (?ts ! nat j)"
      by (intro exI [of _ j]) (simp add: at_index_Some)
  qed
  have two: "\<forall>j. ?idx + 1 \<le> j \<and> j < ?e \<and> 0 \<le> j \<longrightarrow> topic_id (?ts ! nat j) \<in> preloadedRef refs'"
  proof (intro allI impI)
    fix j assume h: "?idx + 1 \<le> j \<and> j < ?e \<and> 0 \<le> j"
    then have "at_index ?ts j = Some (?ts ! nat j)" by (simp add: at_index_def)
    with h c p show "topic_id (?ts ! nat j) \<in> preloadedRef refs'" by blast
  qed
  from one two show ?thesis by blast
qed

lemma preload_upcoming_first:
  "at_index ts j = Some t \<Longrightarrow> i \<le> j \<Longrightarrow> j < e \<Longrightarrow> topic_id t \<notin> seen \<Longrightarrow>
   (\<forall>i' t'. i \<le> i' \<and> i' < j \<and> at_index ts i' = Some t' \<longrightarrow> topic_id t' \<noteq> topic_id t) \<Longrightarrow>
   t \<in> set (snd (preload_upcoming ts i e seen))"
proof (induction ts i e seen rule: preload_upcoming.induct)
  case (1 ts i endIdx seen)
  from "1.prems"(2,3) have lt: "i < endIdx" by simp
  show ?case
  proof (cases "j = i")
    case True
    with "1.prems"(1,4) lt show ?thesis by (simp add: preload_upcoming_new)
  next
    case False
    with "1.prems"(2) have le: "i + 1 \<le> j" by simp
    have later: "\<forall>i' t'. i + 1 \<le> i' \<and> i' < j \<and> at_index ts i' = Some t'
                   \<longrightarrow> topic_id t' \<noteq> topic_id t"
    proof (intro allI impI)
      fix i' t' assume "i + 1 \<le> i' \<and> i' < j \<and> at_index ts i' = Some t'"
      then have "i \<le> i' \<and> i' < j \<and> at_index ts i' = Some t'" by simp
      with "1.prems"(5) show "topic_id t' \<noteq> topic_id t" by blast
    qed
    show ?thesis
    proof (cases "at_index ts i")
      case None
      from "1.IH"(1) [OF lt None "1.prems"(1) le "1.prems"(3,4) later] lt None
      show ?thesis by (simp add: preload_upcoming_none)
    next
      case (Some u)
      from "1.prems"(2) False have "i \<le> i \<and> i < j \<and> at_index ts i = Some u"
        using Some by simp
      with "1.prems"(5) have ne: "topic_id u \<noteq> topic_id t" by blast
      show ?thesis
      proof (cases "topic_id u \<in> seen")
        case True
        from "1.IH"(3) [OF lt Some _ "1.prems"(1) le "1.prems"(3,4) later] True lt Some
        show ?thesis by (simp add: preload_upcoming_old)
      next
        case new: False
        from ne "1.prems"(4) have "topic_id t \<notin> insert (topic_id u) seen" by simp
        from "1.IH"(2) [OF lt Some new "1.prems"(1) le "1.prems"(3) this later] lt Some new
        show ?thesis by (simp add: preload_upcoming_new)
      qed
    qed
  qed
qed

lemma preload_current_requests:
  "fst (snd (preload_current st refs)) =
     (case at_index (topics st) (currentIndex st) of
        None \<Rightarrow> []
      | Some t \<Rightarrow> if topic_id t \<in> preloadedRef refs then [] else [buildExpandUrl t])"
  by (simp add: preload_current_def split: option.splits prod.splits)

lemma preload_current_seen:
  "preloadedRef (fst (preload_current st refs)) =
     preloadedRef refs \<union> (case at_index (topics st) (currentIndex st) of
                            None \<Rightarrow> {} | Some t \<Rightarrow> {topic_id t})"
  by (auto simp add: preload_current_def split: option.splits prod.splits)

lemma preloadTopics_parts:
  "fst (snd (preloadTopics pc st refs)) = fst (snd (preload_current st refs))
   \<and> snd (snd (snd (preloadTopics pc st refs))) =
       map buildExpandUrl
         (snd (preload_upcoming (topics st) (currentIndex st + 1)
                 (min (currentIndex st + pc + 1) (int (length (topics st))))
                 (preloadedRef (fst (preload_current st refs)))))
   \<and> preloadedRef (fst (preloadTopics pc st refs)) =
       fst (preload_upcoming (topics st) (currentIndex st + 1)
              (min (currentIndex st + pc + 1) (int (length (topics st))))
              (preloadedRef (fst (preload_current st refs))))"
  by (simp add: preloadTopics_def Let_def split: prod.splits)

lemma preloadTopics_fresh:
  assumes "r \<in> set (snd (snd (snd (preloadTopics pc st refs))))"
  shows "\<exists>j. currentIndex st + 1 \<le> j
            \<and> j < min (currentIndex st + pc + 1) (int (length (topics st)))
            \<and> 0 \<le> j \<and> j < int (length (topics st))
            \<and> r = buildExpandUrl (topics st ! nat j)
            \<and> topic_id (topics st ! nat j) \<notin> preloadedRef (fst (preload_current st refs))"
proof -
  let ?ts = "topics st" and ?idx = "currentIndex st"
  let ?e = "min (?idx + pc + 1) (int (length ?ts))"
  let ?P = "preloadedRef (fst (preload_current st refs))"
  let ?r = "preload_upcoming ?ts (?idx + 1) ?e ?P"
  from assms obtain t where t: "t \<in> set (snd ?r)" "r = buildExpandUrl t"
    by (auto simp add: preloadTopics_parts)
  from upcoming_okD [of ?ts "?idx + 1" ?e ?P]
  have w: "\<forall>t\<in>set (snd ?r). \<exists>j. ?idx + 1 \<le> j \<and> j < ?e \<and> at_index ?ts j = Some t"
    and n: "topic_id ` set (snd ?r) \<inter> ?P = {}" by blast+
  from w t(1) obtain j where j: "?idx + 1 \<le> j \<and> j < ?e \<and> at_index ?ts j = Some t" by blast
  from n t(1) have "topic_id t \<notin> ?P" by blast
  with j t(2) show ?thesis by (intro exI [of _ j]) (simp add: at_index_Some)
qed

lemma preloadTopics_covers:
  assumes "currentIndex st + 1 \<le> j"
    and "j < min (currentIndex st + pc + 1) (int (length (topics st)))" and "0 \<le> j"
    and "topic_id (topics st ! nat j) \<notin> preloadedRef (fst (preload_current st refs))"
    and "\<forall>i. currentIndex st + 1 \<le> i \<and> i < j \<and> 0 \<le> i
           \<longrightarrow> topic_id (topics st ! nat i) \<noteq> topic_id (topics st ! nat j)"
  shows "buildExpandUrl (topics st ! nat j) \<in> set (snd (snd (snd (preloadTopics pc st refs))))"
proof -
  let ?ts = "topics st" and ?idx = "currentIndex st"
  let ?e = "min (?idx + pc + 1) (int (length ?ts))"
  let ?P = "preloadedRef (fst (preload_current st refs))"
  from assms(2,3) have a: "at_index ?ts j = Some (?ts ! nat j)" by (simp add: at_index_def)
  have f: "\<forall>i' t'. ?idx + 1 \<le> i' \<and> i' < j \<and> at_index ?ts i' = Some t'
             \<longrightarrow> topic_id t' \<noteq> topic_id (?ts ! nat j)"
    using assms(5) by (auto simp add: at_index_Some)
  from preload_upcoming_first [OF a assms(1,2,4) f]
  show ?thesis by (simp add: preloadTopics_parts)
qed

lemma preloadTopics_distinct:
  "distinct (map expand_id (fst (snd (preloadTopics pc st refs))
                              @ snd (snd (snd (preloadTopics pc st refs)))))"
proof -
  obtain r c h u where p: "preloadTopics pc st refs = (r, c, h, u)"
    by (cases "preloadTopics pc st refs") auto
  from preloadTopics_log [OF p] obtain ids where
    "map expand_id (c @ u) = map Some ids" "distinct ids" by blast
  then have "distinct (map expand_id (c @ u))" by (simp add: distinct_map)
  with p show ?thesis by simp
qed

lemma preloadTopics_window:
  assumes "0 \<le> j" and "j < int (length (topics st))"
    and "j = currentIndex st \<or> (currentIndex st + 1 \<le> j \<and> j < currentIndex st + pc + 1)"
  shows "topic_id (topics st ! nat j) \<in> preloadedRef (fst (preloadTopics pc st refs))"
proof -
  let ?ts = "topics st" and ?idx = "currentIndex st"
  let ?e = "min (?idx + pc + 1) (int (length ?ts))"
  let ?P = "preloadedRef (fst (preload_current st refs))"
  let ?r = "preload_upcoming ?ts (?idx + 1) ?e ?P"
  from assms(1,2) have a: "at_index ?ts j = Some (?ts ! nat j)" by (simp add: at_index_def)
  from upcoming_okD [of ?ts "?idx + 1" ?e ?P]
  have g: "fst ?r = ?P \<union> topic_id ` set (snd ?r)"
    and c: "\<forall>j t. ?idx + 1 \<le> j \<and> j < ?e \<and> at_index ?ts j = Some t \<longrightarrow> topic_id t \<in> fst ?r"
    by blast+
  from assms(3) show ?thesis
  proof
    assume "j = ?idx"
    with a have "topic_id (?ts ! nat j) \<in> ?P" by (simp add: preload_current_seen)
    with g show ?thesis by (simp add: preloadTopics_parts)
  next
    assume u: "?idx + 1 \<le> j \<and> j < ?idx + pc + 1"
    with assms(2) have "?idx + 1 \<le> j \<and> j < ?e" by simp
    with a c have "topic_id (?ts ! nat j) \<in> fst ?r" by blast
    then show ?thesis by (simp add: preloadTopics_parts)
  qed
qed

lemma preload_session_mono:
  "preloadedRef refs \<subseteq> preloadedRef (fst (preload_session pc sts refs))"
proof -
  obtain r q where s: "preload_session pc sts refs = (r, q)"
    by (cases "preload_session pc sts refs") auto
  from preload_session_log [OF s] show ?thesis by (auto simp add: s)
qed

lemma preload_session_window:
  assumes "s \<in> set sts" and "0 \<le> j" and "j < int (length (topics s))"
    and "j = currentIndex s \<or> (currentIndex s + 1 \<le> j \<and> j < currentIndex s + pc + 1)"
  shows "topic_id (topics s ! nat j) \<in> preloadedRef (fst (preload_session pc sts refs))"
  using assms(1)
proof (induction sts arbitrary: refs)
  case Nil
  then show ?case by simp
next
  case (Cons st sts)
  obtain r1 c1 h1 u1 where p: "preloadTopics pc st refs = (r1, c1, h1, u1)"
    by (cases "preloadTopics pc st refs") auto
  obtain r2 q2 where q: "preload_session pc sts r1 = (r2, q2)"
    by (cases "preload_session pc sts r1") auto
  have final: "fst (preload_session pc (st # sts) refs) = fst (preload_session pc sts r1)"
    by (simp add: p q)
  show ?case
  proof (cases "s = st")
    case True
    from preloadTopics_window [OF assms(2,3,4), of refs] True p
    have "topic_id (topics s ! nat j) \<in> preloadedRef r1" by simp
    with preload_session_mono [of r1 pc sts] show ?thesis unfolding final by blast
  next
    case False
    with Cons.prems have "s \<in> set sts" by simp
    from Cons.IH [OF this, of r1] show ?thesis unfolding final .
  qed
qed

lemma exactly_once:
  assumes "map f xs = map Some ids" and "distinct ids"
  shows "length (filter (\<lambda>x. f x = Some i) xs) = (if i \<in> set ids then 1 else 0)"
proof -
  have "length (filter (\<lambda>x. f x = Some i) xs) = length (filter (\<lambda>y. y = Some i) (map f xs))"
    by (simp add: filter_map comp_def)
  also have "\<dots> = length (filter (\<lambda>y. y = Some i) (map Some ids))" using assms(1) by simp
  also have "\<dots> = length (filter (\<lambda>y. y = i) ids)" by (simp add: filter_map comp_def)
  also have "\<dots> = count_list ids i" by (induction ids) auto
  also have "\<dots> = (if i \<in> set ids then 1 else 0)"
    using assms(2) by (induction ids) (auto simp add: count_list_0_iff)
  finally show ?thesis .
qed

text \<open>
  C6 (confirmed). In a session of the prefetch engine over any sequence of feed states,
  starting from empty refs, a topic id has exactly one deep-dive request when it is in the
  already-requested set at the end and none otherwise (so never more than one); every
  request carries an id of that set; and the set holds the id of the current topic and
  of every topic up to \<open>preloadCount\<close> places after it, for each state the session passed
  through. In a single run, the loop over the upcoming topics requests exactly this: each
  of its requests is for a topic at an index from \<open>currentIndex + 1\<close> up to, not including,
  \<open>min (currentIndex + preloadCount + 1) (length topics)\<close>, inside the list, whose id was
  not yet requested; and every topic at such an index whose id was not yet requested is
  requested, at the first index of the range that carries the id. No id is requested twice
  in a run, and the first block requests the current topic exactly when there is one and
  its id was not yet requested.
\<close>

theorem preload_at_most_once_and_in_range:
  "length (filter (\<lambda>r. expand_id r = Some tid)
             (snd (preload_session preloadCount sts initialRefs))) \<le> 1
   \<and> length (filter (\<lambda>r. expand_id r = Some tid)
               (snd (preload_session preloadCount sts initialRefs)))
       = (if tid \<in> preloadedRef (fst (preload_session preloadCount sts initialRefs))
          then 1 else 0)
   \<and> (\<forall>r\<in>set (snd (preload_session preloadCount sts initialRefs)).
         \<exists>i. expand_id r = Some i
              \<and> i \<in> preloadedRef (fst (preload_session preloadCount sts initialRefs)))
   \<and> (\<forall>s\<in>set sts. \<forall>j. 0 \<le> j \<and> j < int (length (topics s))
          \<and> (j = currentIndex s
               \<or> (currentIndex s + 1 \<le> j \<and> j < currentIndex s + preloadCount + 1))
         \<longrightarrow> topic_id (topics s ! nat j)
               \<in> preloadedRef (fst (preload_session preloadCount sts initialRefs)))
   \<and> (\<forall>r\<in>set (snd (snd (snd (preloadTopics preloadCount st refs)))).
         \<exists>j. currentIndex st + 1 \<le> j
              \<and> j < min (currentIndex st + preloadCount + 1) (int (length (topics st)))
              \<and> 0 \<le> j \<and> j < int (length (topics st))
              \<and> r = buildExpandUrl (topics st ! nat j)
              \<and> topic_id (topics st ! nat j) \<notin> preloadedRef (fst (preload_current st refs)))
   \<and> (\<forall>j. currentIndex st + 1 \<le> j
            \<and> j < min (currentIndex st + preloadCount + 1) (int (length (topics st))) \<and> 0 \<le> j
          \<longrightarrow> topic_id (topics st ! nat j) \<in> preloadedRef (fst (preloadTopics preloadCount st refs)))
   \<and> (\<forall>j. currentIndex st + 1 \<le> j
            \<and> j < min (currentIndex st + preloadCount + 1) (int (length (topics st))) \<and> 0 \<le> j
            \<and> topic_id (topics st ! nat j) \<notin> preloadedRef (fst (preload_current st refs))
            \<and> (\<forall>i. currentIndex st + 1 \<le> i \<and> i < j \<and> 0 \<le> i
                   \<longrightarrow> topic_id (topics st ! nat i) \<noteq> topic_id (topics st ! nat j))
          \<longrightarrow> buildExpandUrl (topics st ! nat j)
                \<in> set (snd (snd (snd (preloadTopics preloadCount st refs)))))
   \<and> distinct (map expand_id (fst (snd (preloadTopics preloadCount st refs))
                                @ snd (snd (snd (preloadTopics preloadCount st refs)))))
   \<and> fst (snd (preloadTopics preloadCount st refs)) =
       (case at_index (topics st) (currentIndex st) of
          None \<Rightarrow> []
        | Some t \<Rightarrow> if topic_id t \<in> preloadedRef refs then [] else [buildExpandUrl t])
   \<and> preloadedRef (fst (preload_current st refs)) =
       preloadedRef refs \<union> (case at_index (topics st) (currentIndex st) of
                              None \<Rightarrow> {} | Some t \<Rightarrow> {topic_id t})"
proof -
  obtain refs' reqs where s: "preload_session preloadCount sts initialRefs = (refs', reqs)"
    by (cases "preload_session preloadCount sts initialRefs") auto
  from preload_session_log [OF s] obtain ids where
    ids: "map expand_id reqs = map Some ids" "distinct ids"
      "preloadedRef refs' = preloadedRef initialRefs \<union> set ids" by blast
  then have fin: "preloadedRef refs' = set ids" by (simp add: initialRefs_def)
  have a: "length (filter (\<lambda>r. expand_id r = Some tid) reqs) \<le> 1"
    by (rule at_most_once [OF ids(1,2)])
  have a': "length (filter (\<lambda>r. expand_id r = Some tid) reqs)
              = (if tid \<in> preloadedRef refs' then 1 else 0)"
    unfolding fin by (rule exactly_once [OF ids(1,2)])
  have b: "\<forall>r\<in>set reqs. \<exists>i. expand_id r = Some i \<and> i \<in> preloadedRef refs'"
  proof
    fix r assume "r \<in> set reqs"
    then have "expand_id r \<in> set (map expand_id reqs)" by simp
    with ids(1) obtain i where "i \<in> set ids" "expand_id r = Some i" by auto
    with ids(3) show "\<exists>i. expand_id r = Some i \<and> i \<in> preloadedRef refs'" by auto
  qed
  have c: "\<forall>s\<in>set sts. \<forall>j. 0 \<le> j \<and> j < int (length (topics s))
          \<and> (j = currentIndex s
               \<or> (currentIndex s + 1 \<le> j \<and> j < currentIndex s + preloadCount + 1))
         \<longrightarrow> topic_id (topics s ! nat j)
               \<in> preloadedRef (fst (preload_session preloadCount sts initialRefs))"
    using preload_session_window [of _ sts _ preloadCount initialRefs] by blast
  have d: "\<forall>r\<in>set (snd (snd (snd (preloadTopics preloadCount st refs)))).
         \<exists>j. currentIndex st + 1 \<le> j
              \<and> j < min (currentIndex st + preloadCount + 1) (int (length (topics st)))
              \<and> 0 \<le> j \<and> j < int (length (topics st))
              \<and> r = buildExpandUrl (topics st ! nat j)
              \<and> topic_id (topics st ! nat j) \<notin> preloadedRef (fst (preload_current st refs))"
    using preloadTopics_fresh by blast
  obtain r1 c1 h1 u1 where p: "preloadTopics preloadCount st refs = (r1, c1, h1, u1)"
    by (cases "preloadTopics preloadCount st refs") auto
  from preloadTopics_range [OF p]
  have e: "\<forall>j. currentIndex st + 1 \<le> j
            \<and> j < min (currentIndex st + preloadCount + 1) (int (length (topics st))) \<and> 0 \<le> j
          \<longrightarrow> topic_id (topics st ! nat j) \<in> preloadedRef (fst (preloadTopics preloadCount st refs))"
    by (simp add: p)
  have f: "\<forall>j. currentIndex st + 1 \<le> j
            \<and> j < min (currentIndex st + preloadCount + 1) (int (length (topics st))) \<and> 0 \<le> j
            \<and> topic_id (topics st ! nat j) \<notin> preloadedRef (fst (preload_current st refs))
            \<and> (\<forall>i. currentIndex st + 1 \<le> i \<and> i < j \<and> 0 \<le> i
                   \<longrightarrow> topic_id (topics st ! nat i) \<noteq> topic_id (topics st ! nat j))
          \<longrightarrow> buildExpandUrl (topics st ! nat j)
                \<in> set (snd (snd (snd (preloadTopics preloadCount st refs))))"
    using preloadTopics_covers [of st _ preloadCount refs] by blast
  have g: "distinct (map expand_id (fst (snd (preloadTopics preloadCount st refs))
                                @ snd (snd (snd (preloadTopics preloadCount st refs)))))"
    by (rule preloadTopics_distinct)
  have h: "fst (snd (preloadTopics preloadCount st refs)) =
       (case at_index (topics st) (currentIndex st) of
          None \<Rightarrow> []
        | Some t \<Rightarrow> if topic_id t \<in> preloadedRef refs then [] else [buildExpandUrl t])"
    by (simp add: preloadTopics_parts preload_current_requests)
  have i: "preloadedRef (fst (preload_current st refs)) =
       preloadedRef refs \<union> (case at_index (topics st) (currentIndex st) of
                              None \<Rightarrow> {} | Some t \<Rightarrow> {topic_id t})"
    by (rule preload_current_seen)
  from a a' b have abc: "length (filter (\<lambda>r. expand_id r = Some tid)
             (snd (preload_session preloadCount sts initialRefs))) \<le> 1
   \<and> length (filter (\<lambda>r. expand_id r = Some tid)
               (snd (preload_session preloadCount sts initialRefs)))
       = (if tid \<in> preloadedRef (fst (preload_session preloadCount sts initialRefs))
          then 1 else 0)
   \<and> (\<forall>r\<in>set (snd (preload_session preloadCount sts initialRefs)).
         \<exists>i. expand_id r = Some i
              \<and> i \<in> preloadedRef (fst (preload_session preloadCount sts initialRefs)))"
    by (simp add: s)
  from abc c d e f g h i show ?thesis by (intro conjI) blast+
qed

theorem preload_at_most_once_and_in_range_witness:
  "snd (preload_session 2 [feedOfThree, feedOfThree\<lparr> currentIndex := 1 \<rparr>, feedOfThree] initialRefs)
     = [GetExpand ''t1'' ''One'' ''first'', GetExpand ''t2'' ''Two'' ''second'',
        GetExpand ''t3'' ''Three'' ''third'']
   \<and> length (filter (\<lambda>r. expand_id r = Some ''t2'')
        (snd (preload_session 2 [feedOfThree, feedOfThree\<lparr> currentIndex := 1 \<rparr>, feedOfThree]
                initialRefs))) \<le> 1
   \<and> snd (snd (snd (preloadTopics 2 (feedOfThree\<lparr> currentIndex := 1 \<rparr>) initialRefs)))
     = [GetExpand ''t3'' ''Three'' ''third'']
   \<and> buildExpandUrl (topics feedOfThree ! nat 2)
       \<in> set (snd (snd (snd (preloadTopics 2 feedOfThree initialRefs))))
   \<and> topic_id (topics feedOfThree ! nat 2)
       \<in> preloadedRef (fst (preload_session 2
            [feedOfThree, feedOfThree\<lparr> currentIndex := 1 \<rparr>, feedOfThree] initialRefs))"
proof -
  let ?st = "feedOfThree\<lparr> currentIndex := 1 \<rparr>"
  let ?sts = "[feedOfThree, ?st, feedOfThree]"
  have run: "snd (preload_session 2 ?sts initialRefs)
     = [GetExpand ''t1'' ''One'' ''first'', GetExpand ''t2'' ''Two'' ''second'',
        GetExpand ''t3'' ''Three'' ''third'']"
    by (simp add: preloadTopics_def preload_current_def feedOfThree_def threeTopics_def
          exampleTopic_def initialState_def initialRefs_def at_index_def buildExpandUrl_def
          Let_def preload_upcoming_stop preload_upcoming_none preload_upcoming_old
          preload_upcoming_new)
  have one: "snd (snd (snd (preloadTopics 2 ?st initialRefs)))
     = [GetExpand ''t3'' ''Three'' ''third'']"
    by (simp add: preloadTopics_def preload_current_def feedOfThree_def threeTopics_def
          exampleTopic_def initialState_def initialRefs_def at_index_def buildExpandUrl_def
          Let_def preload_upcoming_stop preload_upcoming_none preload_upcoming_old
          preload_upcoming_new)
  note inst = preload_at_most_once_and_in_range [of "''t2''" 2 ?sts ?st initialRefs]
  from inst have le: "length (filter (\<lambda>r. expand_id r = Some ''t2'')
        (snd (preload_session 2 ?sts initialRefs))) \<le> 1" by blast
  note inst0 = preload_at_most_once_and_in_range [of "''t2''" 2 ?sts feedOfThree initialRefs]
  have r1: "currentIndex feedOfThree + 1 \<le> 2
      \<and> 2 < min (currentIndex feedOfThree + 2 + 1) (int (length (topics feedOfThree)))
      \<and> (0::int) \<le> 2"
    by (simp add: feedOfThree_def threeTopics_def initialState_def)
  have r2: "topic_id (topics feedOfThree ! nat 2)
      \<notin> preloadedRef (fst (preload_current feedOfThree initialRefs))"
    by (simp add: preload_current_def feedOfThree_def threeTopics_def exampleTopic_def
          initialState_def initialRefs_def at_index_def)
  have r3: "\<forall>i. currentIndex feedOfThree + 1 \<le> i \<and> i < 2 \<and> 0 \<le> i
              \<longrightarrow> topic_id (topics feedOfThree ! nat i) \<noteq> topic_id (topics feedOfThree ! nat 2)"
  proof (intro allI impI)
    fix i :: int assume "currentIndex feedOfThree + 1 \<le> i \<and> i < 2 \<and> 0 \<le> i"
    then have "i = 1" by (simp add: feedOfThree_def initialState_def)
    then show "topic_id (topics feedOfThree ! nat i) \<noteq> topic_id (topics feedOfThree ! nat 2)"
      by (simp add: feedOfThree_def threeTopics_def exampleTopic_def initialState_def)
  qed
  from inst0 r1 r2 r3 have cov: "buildExpandUrl (topics feedOfThree ! nat 2)
       \<in> set (snd (snd (snd (preloadTopics 2 feedOfThree initialRefs))))" by blast
  have m: "feedOfThree \<in> set ?sts" by simp
  have w: "(0::int) \<le> 2 \<and> 2 < int (length (topics feedOfThree))
      \<and> (2 = currentIndex feedOfThree
           \<or> (currentIndex feedOfThree + 1 \<le> 2 \<and> 2 < currentIndex feedOfThree + 2 + 1))"
    by (simp add: feedOfThree_def threeTopics_def initialState_def)
  from inst m w have ses: "topic_id (topics feedOfThree ! nat 2)
       \<in> preloadedRef (fst (preload_session 2 ?sts initialRefs))" by blast
  from run le one cov ses show ?thesis by blast
qed

subsection \<open>Pagination\<close>

lemma titleKey_take: "titleKey t = take 30 (toLowerCase (title t))"
  by (simp add: titleKey_def slice_def Let_def min_def)

lemma set_newTopics:
  "set (newTopics existing batch) =
     {t \<in> set batch. topic_id t \<notin> topic_id ` set existing \<and> titleKey t \<notin> titleKey ` set existing}"
  by (auto simp add: newTopics_def Let_def)

lemma newTopics_filter:
  "newTopics existing batch =
     filter (\<lambda>t. topic_id t \<notin> topic_id ` set existing \<and> titleKey t \<notin> titleKey ` set existing) batch"
  by (auto simp add: newTopics_def Let_def intro!: filter_cong)

lemma loadMoreTopics_topics:
  "topics (fst (fst (loadMoreTopics now resp (st, sto)))) =
     (if isLoadingMore st then topics st
      else case resp of
             Response True (Inr d) \<Rightarrow> topics st @ newTopics (topics st) (d_topics d)
           | _ \<Rightarrow> topics st)"
  by (simp add: loadMoreTopics_def Let_def split: Response.splits sum.splits bool.splits)

lemma loadMoreTopics_currentIndex:
  "currentIndex (fst (fst (loadMoreTopics now resp (st, sto)))) = currentIndex st"
  by (simp add: loadMoreTopics_def Let_def split: Response.splits sum.splits)

lemma loadMoreTopics_appended:
  "\<exists>new. topics (fst (fst (loadMoreTopics now resp (st, sto)))) = topics st @ new
     \<and> (\<forall>t\<in>set new. topic_id t \<notin> topic_id ` set (topics st)
                     \<and> titleKey t \<notin> titleKey ` set (topics st))
     \<and> ((\<forall>d. resp = Response True (Inr d) \<longrightarrow> distinct (map topic_id (d_topics d)))
          \<longrightarrow> distinct (map topic_id new))"
proof (cases "\<not> isLoadingMore st \<and> (\<exists>d. resp = Response True (Inr d))")
  case True
  then obtain d where d: "resp = Response True (Inr d)" by blast
  with True have "topics (fst (fst (loadMoreTopics now resp (st, sto))))
      = topics st @ newTopics (topics st) (d_topics d)"
    by (simp add: loadMoreTopics_topics)
  moreover have "\<forall>t\<in>set (newTopics (topics st) (d_topics d)).
      topic_id t \<notin> topic_id ` set (topics st) \<and> titleKey t \<notin> titleKey ` set (topics st)"
    by (simp add: set_newTopics)
  moreover have "distinct (map topic_id (d_topics d)) \<Longrightarrow>
      distinct (map topic_id (newTopics (topics st) (d_topics d)))"
    by (simp add: newTopics_filter distinct_map_filter)
  ultimately show ?thesis using d by (intro exI [of _ "newTopics (topics st) (d_topics d)"]) simp
next
  case False
  then have "topics (fst (fst (loadMoreTopics now resp (st, sto)))) = topics st"
    by (auto simp add: loadMoreTopics_topics split: Response.splits sum.splits bool.splits)
  then show ?thesis by (intro exI [of _ "[]"]) simp
qed

text \<open>
  C7 (corrected). For every state, store, time and answer, \<open>loadMoreTopics\<close> only grows
  the list: the previous topics are a prefix of the new list, \<open>currentIndex\<close> is
  unchanged, and every appended topic has an id that no previous topic has and a title
  key (the first 30 characters of the lower-cased title) that no previous topic has; on a
  successful answer outside a load in flight the appended topics are exactly the batch
  topics that pass both tests, in batch order. When the ids of the previous list are
  distinct and the ids of the batch are distinct, the ids of the new list are distinct.
\<close>

theorem loadMoreTopics_growth:
  "prefix (topics st) (topics (fst (fst (loadMoreTopics now resp (st, sto)))))
   \<and> currentIndex (fst (fst (loadMoreTopics now resp (st, sto)))) = currentIndex st
   \<and> (\<forall>t\<in>set (drop (length (topics st)) (topics (fst (fst (loadMoreTopics now resp (st, sto)))))).
        topic_id t \<notin> topic_id ` set (topics st)
        \<and> take 30 (toLowerCase (title t))
            \<notin> (\<lambda>u. take 30 (toLowerCase (title u))) ` set (topics st))
   \<and> (\<not> isLoadingMore st \<and> resp = Response True (Inr d) \<longrightarrow>
        topics (fst (fst (loadMoreTopics now resp (st, sto)))) =
          topics st @ filter (\<lambda>t. topic_id t \<notin> topic_id ` set (topics st)
                                 \<and> take 30 (toLowerCase (title t))
                                     \<notin> (\<lambda>u. take 30 (toLowerCase (title u))) ` set (topics st))
                        (d_topics d))
   \<and> (distinct (map topic_id (topics st))
        \<and> (\<forall>d'. resp = Response True (Inr d') \<longrightarrow> distinct (map topic_id (d_topics d')))
      \<longrightarrow> distinct (map topic_id (topics (fst (fst (loadMoreTopics now resp (st, sto)))))))"
proof -
  let ?ts' = "topics (fst (fst (loadMoreTopics now resp (st, sto))))"
  have k: "titleKey = (\<lambda>u. take 30 (toLowerCase (title u)))"
    by (rule ext) (rule titleKey_take)
  from loadMoreTopics_appended [of now resp st sto] obtain new where
    n: "?ts' = topics st @ new"
       "\<forall>t\<in>set new. topic_id t \<notin> topic_id ` set (topics st) \<and> titleKey t \<notin> titleKey ` set (topics st)"
       "(\<forall>d. resp = Response True (Inr d) \<longrightarrow> distinct (map topic_id (d_topics d)))
          \<longrightarrow> distinct (map topic_id new)"
    by blast
  have a: "prefix (topics st) ?ts'" using n(1) by simp
  have b: "currentIndex (fst (fst (loadMoreTopics now resp (st, sto)))) = currentIndex st"
    by (rule loadMoreTopics_currentIndex)
  have c: "\<forall>t\<in>set (drop (length (topics st)) ?ts').
        topic_id t \<notin> topic_id ` set (topics st)
        \<and> take 30 (toLowerCase (title t))
            \<notin> (\<lambda>u. take 30 (toLowerCase (title u))) ` set (topics st)"
    using n(1,2) unfolding k by simp
  have d: "\<not> isLoadingMore st \<and> resp = Response True (Inr d) \<longrightarrow>
        ?ts' = topics st @ filter (\<lambda>t. topic_id t \<notin> topic_id ` set (topics st)
                                 \<and> take 30 (toLowerCase (title t))
                                     \<notin> (\<lambda>u. take 30 (toLowerCase (title u))) ` set (topics st))
                        (d_topics d)"
    by (simp add: loadMoreTopics_topics newTopics_filter k)
  have e: "distinct (map topic_id (topics st))
        \<and> (\<forall>d'. resp = Response True (Inr d') \<longrightarrow> distinct (map topic_id (d_topics d')))
      \<longrightarrow> distinct (map topic_id ?ts')"
  proof
    assume h: "distinct (map topic_id (topics st))
        \<and> (\<forall>d'. resp = Response True (Inr d') \<longrightarrow> distinct (map topic_id (d_topics d')))"
    with n(3) have "distinct (map topic_id new)" by blast
    moreover have "topic_id ` set new \<inter> topic_id ` set (topics st) = {}" using n(2) by auto
    ultimately show "distinct (map topic_id ?ts')" using h n(1) by auto
  qed
  from a b c d e show ?thesis by blast
qed

lemma titleKey_Alpha: "titleKey (exampleTopic ''n1'' ''Alpha'' ''a'' []) = ''alpha''" by code_simp
lemma titleKey_Beta: "titleKey (exampleTopic ''n1'' ''Beta'' ''b'' []) = ''beta''" by code_simp
lemma titleKey_threeTopics: "map titleKey threeTopics = [''one'', ''two'', ''three'']" by code_simp

lemma topic_id_exampleTopic: "topic_id (exampleTopic i t c hs) = i"
  by (simp add: exampleTopic_def)

text \<open>
  The batch is filtered against the previous list only, not against itself: a batch that
  carries one new id twice puts both topics into the list.
\<close>

theorem loadMoreTopics_duplicate_id_counterexample:
  "distinct (map topic_id (topics feedOfThree))
   \<and> \<not> distinct (map topic_id
         (topics (fst (fst (loadMoreTopics 0 duplicateIdBatch (feedOfThree, emptyStorage))))))"
proof -
  have t: "topics feedOfThree = threeTopics" "\<not> isLoadingMore feedOfThree"
    by (simp_all add: feedOfThree_def initialState_def)
  have ids: "map topic_id threeTopics = [''t1'', ''t2'', ''t3'']"
    by (simp add: threeTopics_def topic_id_exampleTopic)
  have n: "newTopics threeTopics
             [exampleTopic ''n1'' ''Alpha'' ''a'' [], exampleTopic ''n1'' ''Beta'' ''b'' []]
           = [exampleTopic ''n1'' ''Alpha'' ''a'' [], exampleTopic ''n1'' ''Beta'' ''b'' []]"
    by (simp add: newTopics_def Let_def titleKey_Alpha titleKey_Beta ids titleKey_threeTopics
          topic_id_exampleTopic)
  show ?thesis
    by (simp add: loadMoreTopics_topics t duplicateIdBatch_def n ids topic_id_exampleTopic)
qed

theorem loadMoreTopics_growth_witness:
  "topics (fst (fst (loadMoreTopics 0
       (Response True (Inr \<lparr> d_topics =
          [exampleTopic ''t2'' ''Other'' ''x'' [], exampleTopic ''n1'' ''Alpha'' ''a'' [],
           exampleTopic ''n2'' ''ONE'' ''y'' []],
          d_mode = None, d_hasMore = None \<rparr>))
       (feedOfThree, emptyStorage))))
     = threeTopics @ [exampleTopic ''n1'' ''Alpha'' ''a'' []]
   \<and> prefix (topics feedOfThree) (topics (fst (fst (loadMoreTopics 0
       (Response True (Inr \<lparr> d_topics =
          [exampleTopic ''t2'' ''Other'' ''x'' [], exampleTopic ''n1'' ''Alpha'' ''a'' [],
           exampleTopic ''n2'' ''ONE'' ''y'' []],
          d_mode = None, d_hasMore = None \<rparr>))
       (feedOfThree, emptyStorage)))))
   \<and> distinct (map topic_id (topics (fst (fst (loadMoreTopics 0
       (Response True (Inr \<lparr> d_topics =
          [exampleTopic ''t2'' ''Other'' ''x'' [], exampleTopic ''n1'' ''Alpha'' ''a'' [],
           exampleTopic ''n2'' ''ONE'' ''y'' []],
          d_mode = None, d_hasMore = None \<rparr>))
       (feedOfThree, emptyStorage))))))"
proof -
  let ?d = "\<lparr> d_topics =
          [exampleTopic ''t2'' ''Other'' ''x'' [], exampleTopic ''n1'' ''Alpha'' ''a'' [],
           exampleTopic ''n2'' ''ONE'' ''y'' []],
          d_mode = None, d_hasMore = None \<rparr>"
  have t: "topics feedOfThree = threeTopics" "\<not> isLoadingMore feedOfThree"
    by (simp_all add: feedOfThree_def initialState_def)
  have ids: "map topic_id threeTopics = [''t1'', ''t2'', ''t3'']"
    by (simp add: threeTopics_def topic_id_exampleTopic)
  have low: "toLowerCase ''Other'' = ''other''" "toLowerCase ''Alpha'' = ''alpha''"
    "toLowerCase ''ONE'' = ''one''" "toLowerCase ''One'' = ''one''" "toLowerCase ''Two'' = ''two''"
    "toLowerCase ''Three'' = ''three''"
    by code_simp+
  have h1: "distinct (map topic_id (topics feedOfThree))" by (simp add: t ids)
  have h2: "\<forall>d'. (Response True (Inr ?d) :: TopicsData Response) = Response True (Inr d')
               \<longrightarrow> distinct (map topic_id (d_topics d'))"
    by (auto simp add: topic_id_exampleTopic)
  from loadMoreTopics_growth [of feedOfThree 0 "Response True (Inr ?d)" emptyStorage ?d] h1 h2 t
  show ?thesis
    by (simp add: threeTopics_def exampleTopic_def low)
qed

subsection \<open>Restore on initialisation\<close>

lemma loadFromStorage_fresh:
  "item sto = Some (Saved d) \<Longrightarrow> \<not> getItem_throws sto \<Longrightarrow> now - p_timestamp d \<le> oneHour \<Longrightarrow>
   loadFromStorage now sto = (Some (p_topics d, p_currentIndex d), sto)"
  by (simp add: loadFromStorage_def getItem_def JSON_parse_def)

lemma loadFromStorage_stale:
  "item sto = Some (Saved d) \<Longrightarrow> \<not> getItem_throws sto \<Longrightarrow> now - p_timestamp d > oneHour \<Longrightarrow>
   loadFromStorage now sto = (None, if removeItem_throws sto then sto else sto\<lparr> item := None \<rparr>)"
  by (simp add: loadFromStorage_def getItem_def JSON_parse_def removeItem_def)

lemma loadFromStorage_unreadable:
  "getItem_throws sto \<or> item sto = Some Unparseable \<or> item sto = None \<Longrightarrow>
   loadFromStorage now sto = (None, sto)"
  by (auto simp add: loadFromStorage_def getItem_def JSON_parse_def)

lemma fetchTopics_nothing_loaded:
  "\<not> initializedRef refs \<Longrightarrow> loadFromStorage now sto = (None, sto') \<Longrightarrow>
   fetchTopics False now resp (st, refs, sto) = fetchTopics True now resp (st, refs, sto')"
  by (simp add: fetchTopics_def Let_def split: Response.splits sum.splits)

lemma fetchTopics_forced_requests: "snd (fetchTopics True now resp w) = [GetTopics]"
  by (simp add: fetchTopics_def Let_def split: Response.splits sum.splits)

lemma saveToStorage_failure: "setItem_throws sto \<Longrightarrow> saveToStorage now ts idx sto = sto"
  by (simp add: saveToStorage_def setItem_def)

text \<open>
  C8 (corrected). On the first call of \<open>fetchTopics\<close> (no forced refresh, not yet
  initialised): when the store holds an entry that is at most one hour old and whose
  topic list is not empty, the state takes \<open>topics\<close> and \<open>currentIndex\<close> from it and no
  request is issued; when the entry is older than one hour it is not used and is removed
  from the store (left in place only when the removal itself throws, which is caught),
  and the normal fetch runs; when reading the store throws or the text under the key does
  not parse, the call behaves as with no saved state, and a write that throws leaves the
  store as it was. All of these return values: nothing is thrown to the caller.
\<close>

theorem fetchTopics_restore:
  "(item sto = Some (Saved d) \<and> \<not> getItem_throws sto \<and> \<not> initializedRef refs
      \<and> now - p_timestamp d \<le> oneHour \<and> p_topics d \<noteq> [] \<longrightarrow>
      fetchTopics False now resp (st, refs, sto) =
        ((st\<lparr> topics := p_topics d, currentIndex := p_currentIndex d, isLoading := False,
              mode := Live \<rparr>,
          refs\<lparr> initializedRef := True \<rparr>, sto), []))
   \<and> (item sto = Some (Saved d) \<and> \<not> getItem_throws sto \<and> \<not> initializedRef refs
      \<and> now - p_timestamp d > oneHour \<longrightarrow>
      loadFromStorage now sto = (None, if removeItem_throws sto then sto else sto\<lparr> item := None \<rparr>)
      \<and> fetchTopics False now resp (st, refs, sto) =
          fetchTopics True now resp (st, refs, snd (loadFromStorage now sto))
      \<and> snd (fetchTopics False now resp (st, refs, sto)) = [GetTopics])
   \<and> ((getItem_throws sto \<or> item sto = Some Unparseable) \<and> \<not> initializedRef refs \<longrightarrow>
      loadFromStorage now sto = (None, sto)
      \<and> fetchTopics False now resp (st, refs, sto) = fetchTopics True now resp (st, refs, sto)
      \<and> fst (fst (fetchTopics False now resp (st, refs, sto)))
          = fst (fst (fetchTopics False now resp
                        (st, refs, sto\<lparr> item := None, getItem_throws := False \<rparr>)))
      \<and> snd (fetchTopics False now resp (st, refs, sto)) = [GetTopics])
   \<and> (setItem_throws sto \<longrightarrow> saveToStorage now ts idx sto = sto)"
proof -
  have a: "item sto = Some (Saved d) \<and> \<not> getItem_throws sto \<and> \<not> initializedRef refs
      \<and> now - p_timestamp d \<le> oneHour \<and> p_topics d \<noteq> [] \<longrightarrow>
      fetchTopics False now resp (st, refs, sto) =
        ((st\<lparr> topics := p_topics d, currentIndex := p_currentIndex d, isLoading := False,
              mode := Live \<rparr>,
          refs\<lparr> initializedRef := True \<rparr>, sto), [])"
    by (simp add: fetchTopics_def Let_def loadFromStorage_fresh)
  have b: "item sto = Some (Saved d) \<and> \<not> getItem_throws sto \<and> \<not> initializedRef refs
      \<and> now - p_timestamp d > oneHour \<longrightarrow>
      loadFromStorage now sto = (None, if removeItem_throws sto then sto else sto\<lparr> item := None \<rparr>)
      \<and> fetchTopics False now resp (st, refs, sto) =
          fetchTopics True now resp (st, refs, snd (loadFromStorage now sto))
      \<and> snd (fetchTopics False now resp (st, refs, sto)) = [GetTopics]"
  proof
    assume h: "item sto = Some (Saved d) \<and> \<not> getItem_throws sto \<and> \<not> initializedRef refs
      \<and> now - p_timestamp d > oneHour"
    then have l: "loadFromStorage now sto
        = (None, if removeItem_throws sto then sto else sto\<lparr> item := None \<rparr>)"
      by (simp add: loadFromStorage_stale)
    from h have f: "fetchTopics False now resp (st, refs, sto) =
          fetchTopics True now resp (st, refs, snd (loadFromStorage now sto))"
      by (intro fetchTopics_nothing_loaded) (simp_all add: l)
    from l f show "loadFromStorage now sto
        = (None, if removeItem_throws sto then sto else sto\<lparr> item := None \<rparr>)
      \<and> fetchTopics False now resp (st, refs, sto) =
          fetchTopics True now resp (st, refs, snd (loadFromStorage now sto))
      \<and> snd (fetchTopics False now resp (st, refs, sto)) = [GetTopics]"
      by (simp add: fetchTopics_forced_requests)
  qed
  have c: "(getItem_throws sto \<or> item sto = Some Unparseable) \<and> \<not> initializedRef refs \<longrightarrow>
      loadFromStorage now sto = (None, sto)
      \<and> fetchTopics False now resp (st, refs, sto) = fetchTopics True now resp (st, refs, sto)
      \<and> fst (fst (fetchTopics False now resp (st, refs, sto)))
          = fst (fst (fetchTopics False now resp
                        (st, refs, sto\<lparr> item := None, getItem_throws := False \<rparr>)))
      \<and> snd (fetchTopics False now resp (st, refs, sto)) = [GetTopics]"
  proof
    assume h: "(getItem_throws sto \<or> item sto = Some Unparseable) \<and> \<not> initializedRef refs"
    then have l: "loadFromStorage now sto = (None, sto)"
      by (intro loadFromStorage_unreadable) blast
    from h have f: "fetchTopics False now resp (st, refs, sto)
        = fetchTopics True now resp (st, refs, sto)"
      by (intro fetchTopics_nothing_loaded) (simp_all add: l)
    let ?sto' = "sto\<lparr> item := None, getItem_throws := False \<rparr>"
    have "loadFromStorage now ?sto' = (None, ?sto')"
      by (intro loadFromStorage_unreadable) simp
    with h have "fetchTopics False now resp (st, refs, ?sto')
        = fetchTopics True now resp (st, refs, ?sto')"
      by (intro fetchTopics_nothing_loaded) simp_all
    moreover have "fst (fst (fetchTopics True now resp (st, refs, ?sto')))
        = fst (fst (fetchTopics True now resp (st, refs, sto)))"
      by (simp add: fetchTopics_def Let_def split: Response.splits sum.splits)
    ultimately show "loadFromStorage now sto = (None, sto)
      \<and> fetchTopics False now resp (st, refs, sto) = fetchTopics True now resp (st, refs, sto)
      \<and> fst (fst (fetchTopics False now resp (st, refs, sto)))
          = fst (fst (fetchTopics False now resp
                        (st, refs, sto\<lparr> item := None, getItem_throws := False \<rparr>)))
      \<and> snd (fetchTopics False now resp (st, refs, sto)) = [GetTopics]"
      using l f by (simp add: fetchTopics_forced_requests)
  qed
  have e: "setItem_throws sto \<longrightarrow> saveToStorage now ts idx sto = sto"
    by (simp add: saveToStorage_failure)
  from a b c e show ?thesis by blast
qed

text \<open>
  A fresh entry is not enough: an entry written a second ago with an empty topic list is
  not restored, the normal fetch runs. And an entry older than one hour stays in the
  store when \<open>removeItem\<close> throws.
\<close>

theorem fetchTopics_restore_counterexample:
  "2000 - p_timestamp \<lparr> p_topics = [], p_currentIndex = 0, p_timestamp = 1000 \<rparr> < oneHour
   \<and> item freshEmptyEntry = Some (Saved \<lparr> p_topics = [], p_currentIndex = 0, p_timestamp = 1000 \<rparr>)
   \<and> snd (fetchTopics False 2000 (Rejected ''offline'') (initialState, initialRefs, freshEmptyEntry))
       = [GetTopics]
   \<and> topics (fst (fst (fetchTopics False 2000 (Rejected ''offline'')
                         (initialState, initialRefs, freshEmptyEntry)))) = []
   \<and> item (snd (loadFromStorage (oneHour + 1) staleEntryStuck)) \<noteq> None"
  by (simp add: freshEmptyEntry_def staleEntryStuck_def emptyStorage_def oneHour_def
        fetchTopics_def loadFromStorage_def getItem_def JSON_parse_def removeItem_def
        initialState_def initialRefs_def Let_def)

theorem fetchTopics_restore_witness:
  "fetchTopics False 2000 (Rejected ''offline'') (initialState, initialRefs, freshEntry) =
     ((initialState\<lparr> topics := threeTopics, currentIndex := 1, isLoading := False, mode := Live \<rparr>,
       initialRefs\<lparr> initializedRef := True \<rparr>, freshEntry), [])
   \<and> loadFromStorage (oneHour + 1001) freshEntry = (None, emptyStorage)
   \<and> snd (fetchTopics False (oneHour + 1001) (Rejected ''offline'')
            (initialState, initialRefs, freshEntry)) = [GetTopics]
   \<and> snd (fetchTopics False 2000 (Rejected ''offline'')
            (initialState, initialRefs, freshEntry\<lparr> getItem_throws := True \<rparr>)) = [GetTopics]
   \<and> saveToStorage 2000 threeTopics 1 (emptyStorage\<lparr> setItem_throws := True \<rparr>)
       = emptyStorage\<lparr> setItem_throws := True \<rparr>"
proof -
  let ?d = "\<lparr> p_topics = threeTopics, p_currentIndex = 1, p_timestamp = 1000 \<rparr>"
  have i: "item freshEntry = Some (Saved ?d)" "\<not> getItem_throws freshEntry"
    "\<not> removeItem_throws freshEntry" "\<not> initializedRef initialRefs" "p_topics ?d \<noteq> []"
    by (simp_all add: freshEntry_def emptyStorage_def initialRefs_def threeTopics_def)
  have r: "freshEntry\<lparr> item := None \<rparr> = emptyStorage"
    by (simp add: freshEntry_def emptyStorage_def)
  have 1: "2000 - p_timestamp ?d \<le> oneHour" by (simp add: oneHour_def)
  have 2: "oneHour + 1001 - p_timestamp ?d > oneHour" by simp
  from fetchTopics_restore
    [of freshEntry ?d initialRefs 2000 "Rejected ''offline''" initialState threeTopics 1] i 1
  have a: "fetchTopics False 2000 (Rejected ''offline'') (initialState, initialRefs, freshEntry) =
     ((initialState\<lparr> topics := threeTopics, currentIndex := 1, isLoading := False, mode := Live \<rparr>,
       initialRefs\<lparr> initializedRef := True \<rparr>, freshEntry), [])" by simp
  from fetchTopics_restore
    [of freshEntry ?d initialRefs "oneHour + 1001" "Rejected ''offline''" initialState threeTopics 1]
    i 2
  have "loadFromStorage (oneHour + 1001) freshEntry
          = (None, if removeItem_throws freshEntry then freshEntry else freshEntry\<lparr> item := None \<rparr>)"
    and b2: "snd (fetchTopics False (oneHour + 1001) (Rejected ''offline'')
            (initialState, initialRefs, freshEntry)) = [GetTopics]" by blast+
  with i(3) r have b1: "loadFromStorage (oneHour + 1001) freshEntry = (None, emptyStorage)"
    by simp
  have g: "getItem_throws (freshEntry\<lparr> getItem_throws := True \<rparr>)" by simp
  from fetchTopics_restore
    [of "freshEntry\<lparr> getItem_throws := True \<rparr>" ?d initialRefs 2000 "Rejected ''offline''"
        initialState threeTopics 1] i(4) g
  have c: "snd (fetchTopics False 2000 (Rejected ''offline'')
            (initialState, initialRefs, freshEntry\<lparr> getItem_throws := True \<rparr>)) = [GetTopics]"
    by blast
  from fetchTopics_restore
    [of "emptyStorage\<lparr> setItem_throws := True \<rparr>" ?d initialRefs 2000 "Rejected ''offline''"
        initialState threeTopics 1]
  have d: "saveToStorage 2000 threeTopics 1 (emptyStorage\<lparr> setItem_throws := True \<rparr>)
       = emptyStorage\<lparr> setItem_throws := True \<rparr>" by simp
  from a b1 b2 c d show ?thesis by blast
qed

subsection \<open>Highlight rendering\<close>

lemma occurs_at_Cons_Suc: "occurs_at (c # cs) pat (Suc k) = occurs_at cs pat k"
  by (simp add: occurs_at_def)

lemma occurs_at_0: "occurs_at s pat 0 = (take (length pat) s = pat)"
  by (simp add: occurs_at_def)

lemma indexOf_from_found:
  "indexOf_from i s pat \<ge> 0 \<Longrightarrow>
   \<exists>k. indexOf_from i s pat = int i + int k \<and> occurs_at s pat k
       \<and> (\<forall>j<k. \<not> occurs_at s pat j)"
proof (induction s arbitrary: i)
  case Nil
  then show ?case by (auto simp add: occurs_at_def split: if_splits intro!: exI [of _ 0])
next
  case (Cons c cs)
  show ?case
  proof (cases "take (length pat) (c # cs) = pat")
    case True
    then show ?thesis by (intro exI [of _ 0]) (simp add: occurs_at_0)
  next
    case False
    with Cons.prems have "indexOf_from (Suc i) cs pat \<ge> 0" by simp
    from Cons.IH [OF this] obtain k where
      k: "indexOf_from (Suc i) cs pat = int (Suc i) + int k" "occurs_at cs pat k"
         "\<forall>j<k. \<not> occurs_at cs pat j" by blast
    have "\<forall>j<Suc k. \<not> occurs_at (c # cs) pat j"
    proof (intro allI impI)
      fix j assume "j < Suc k"
      then show "\<not> occurs_at (c # cs) pat j"
        using False k(3) by (cases j) (simp_all add: occurs_at_0 occurs_at_Cons_Suc)
    qed
    with False k(1,2) show ?thesis
      by (intro exI [of _ "Suc k"]) (simp add: occurs_at_Cons_Suc)
  qed
qed

lemma indexOf_from_not_found:
  "indexOf_from i s pat < 0 \<Longrightarrow> \<not> occurs_at s pat k"
proof (induction s arbitrary: i k)
  case Nil
  then show ?case by (auto simp add: occurs_at_def split: if_splits)
next
  case (Cons c cs)
  then show ?case
    by (cases k) (auto simp add: occurs_at_0 occurs_at_Cons_Suc split: if_splits)
qed

lemma indexOf_first:
  assumes "occurs_at s pat k" and "\<forall>j<k. \<not> occurs_at s pat j"
  shows "indexOf s pat = int k"
proof -
  have "\<not> indexOf_from 0 s pat < 0" using assms(1) indexOf_from_not_found by blast
  then have "indexOf_from 0 s pat \<ge> 0" by simp
  from indexOf_from_found [OF this] obtain k' where
    k': "indexOf_from 0 s pat = int 0 + int k'" "occurs_at s pat k'" "\<forall>j<k'. \<not> occurs_at s pat j"
    by blast
  have "k' = k" using assms k'(2,3) by (meson linorder_neqE_nat)
  with k'(1) show ?thesis by (simp add: indexOf_def)
qed

lemma indexOf_none:
  assumes "\<forall>k. \<not> occurs_at s pat k"
  shows "indexOf s pat < 0"
proof (rule ccontr)
  assume "\<not> indexOf s pat < 0"
  then have "indexOf_from 0 s pat \<ge> 0" by (simp add: indexOf_def)
  from indexOf_from_found [OF this] assms show False by blast
qed

lemma occurs_at_bound:
  assumes "occurs_at s pat k" and "pat \<noteq> []"
  shows "k + length pat \<le> length s"
proof -
  from assms(1) have "length (take (length pat) (drop k s)) = length pat"
    by (simp add: occurs_at_def)
  then have "length pat \<le> length s - k" by simp
  moreover from assms(2) have "0 < length pat" by simp
  ultimately show ?thesis by arith
qed

lemma slice_occurrence:
  assumes "occurs_at s pat k" and "pat \<noteq> []"
  shows "slice s (int k) (int k + int (length pat)) = pat"
proof -
  from occurs_at_bound [OF assms] have b: "k + length pat \<le> length s" .
  then have "min (int k) (int (length s)) = int k"
    "min (int k + int (length pat)) (int (length s)) = int k + int (length pat)" by simp_all
  with assms(1) show ?thesis by (simp add: slice_def Let_def occurs_at_def)
qed

lemma segments_loop_highlighted:
  "filter isHighlight (snd (segments_loop contents hs lastIndex result)) =
     filter isHighlight result @ List.map_filter (highlighted_segment contents) hs"
proof (induction hs arbitrary: lastIndex result)
  case Nil
  then show ?case by simp
next
  case (Cons h hs)
  show ?case
  proof (cases "resolve_offsets contents h")
    case None
    with Cons.IH show ?thesis by (simp add: highlighted_segment_def)
  next
    case (Some p)
    obtain a b where p: "p = (a, b)" by (cases p)
    with Some Cons.IH show ?thesis
      by (simp add: highlighted_segment_def Let_def)
  qed
qed

lemma segments_highlighted:
  "filter isHighlight (segments contents hs) =
     List.map_filter (highlighted_segment contents) (sort_key startIndex hs)"
proof (cases "hs = []")
  case True
  then show ?thesis by (simp add: segments_def)
next
  case False
  obtain l r where lr: "segments_loop contents (sort_key startIndex hs) 0 [] = (l, r)"
    by (cases "segments_loop contents (sort_key startIndex hs) 0 []")
  from segments_loop_highlighted [of contents "sort_key startIndex hs" 0 "[]"] lr
  have "filter isHighlight r = List.map_filter (highlighted_segment contents) (sort_key startIndex hs)"
    by simp
  with False lr show ?thesis by (simp add: segments_def)
qed

lemma set_map_filter: "set (List.map_filter f xs) = {y. \<exists>x\<in>set xs. f x = Some y}"
  by (induction xs) (auto split: option.splits)

lemma segments_highlight_set:
  "{seg \<in> set (segments contents hs). isHighlight seg} =
     {seg. \<exists>h\<in>set hs. highlighted_segment contents h = Some seg}"
proof -
  have "{seg \<in> set (segments contents hs). isHighlight seg}
      = set (filter isHighlight (segments contents hs))" by auto
  then show ?thesis by (simp add: segments_highlighted set_map_filter)
qed

lemma segments_loop_plain:
  "\<forall>seg\<in>set result. \<not> isHighlight seg \<longrightarrow> highlight seg = None \<Longrightarrow>
   \<forall>seg\<in>set (snd (segments_loop contents hs lastIndex result)).
     \<not> isHighlight seg \<longrightarrow> highlight seg = None"
proof (induction hs arbitrary: lastIndex result)
  case Nil
  then show ?case by simp
next
  case (Cons h hs)
  show ?case
  proof (cases "resolve_offsets contents h")
    case None
    with Cons show ?thesis by simp
  next
    case (Some p)
    obtain a b where p: "p = (a, b)" by (cases p)
    let ?r1 = "if a > lastIndex
               then result @ [\<lparr> segment_text = slice contents lastIndex a, isHighlight = False,
                                 highlight = None \<rparr>]
               else result"
    let ?r2 = "?r1 @ [\<lparr> segment_text = slice contents a b, isHighlight = True,
                         highlight = Some h \<rparr>]"
    have "\<forall>seg\<in>set ?r2. \<not> isHighlight seg \<longrightarrow> highlight seg = None"
      using Cons.prems by auto
    from Cons.IH [OF this, of b] Some p show ?thesis by (simp add: Let_def)
  qed
qed

lemma segments_plain:
  "seg \<in> set (segments contents hs) \<Longrightarrow> \<not> isHighlight seg \<Longrightarrow> highlight seg = None"
proof (cases "hs = []")
  case True
  assume "seg \<in> set (segments contents hs)"
  with True show ?thesis by (simp add: segments_def)
next
  case False
  assume a: "seg \<in> set (segments contents hs)" "\<not> isHighlight seg"
  obtain l r where lr: "segments_loop contents (sort_key startIndex hs) 0 [] = (l, r)"
    by (cases "segments_loop contents (sort_key startIndex hs) 0 []")
  from segments_loop_plain [of "[]" contents "sort_key startIndex hs" 0] lr
  have "\<forall>seg\<in>set r. \<not> isHighlight seg \<longrightarrow> highlight seg = None" by simp
  with a False lr show ?thesis by (auto simp add: segments_def split: if_splits)
qed

lemma highlighted_segment_highlight:
  "highlighted_segment contents h = Some seg \<Longrightarrow> highlight seg = Some h"
  by (auto simp add: highlighted_segment_def split: option.splits)

text \<open>
  C9 (confirmed). For a highlight whose \<open>startIndex\<close> and \<open>endIndex\<close> are both zero and
  whose text is not empty: when the text first occurs in the content at position \<open>k\<close>,
  the offsets resolve to \<open>k\<close> and \<open>k + length text\<close>, and the segmentation of any highlight
  list that holds the highlight has a highlighted segment with that text for it; when the
  text occurs nowhere in the content, the highlight resolves to nothing and no segment of
  the segmentation refers to it. \<open>segments\<close> is total, so no error arises.
\<close>

theorem highlight_offsets_resolved:
  "startIndex h = 0 \<and> endIndex h = 0 \<and> highlight_text h \<noteq> [] \<longrightarrow>
     (occurs_at contents (highlight_text h) k
        \<and> (\<forall>j<k. \<not> occurs_at contents (highlight_text h) j) \<longrightarrow>
          resolve_offsets contents h = Some (int k, int k + int (length (highlight_text h)))
          \<and> (h \<in> set hs \<longrightarrow>
               \<lparr> segment_text = highlight_text h, isHighlight = True, highlight = Some h \<rparr>
                 \<in> set (segments contents hs)))
     \<and> ((\<forall>k. \<not> occurs_at contents (highlight_text h) k) \<longrightarrow>
          resolve_offsets contents h = None
          \<and> (\<forall>seg\<in>set (segments contents hs). highlight seg \<noteq> Some h))"
proof (intro impI conjI)
  assume z: "startIndex h = 0 \<and> endIndex h = 0 \<and> highlight_text h \<noteq> []"
    and o: "occurs_at contents (highlight_text h) k
        \<and> (\<forall>j<k. \<not> occurs_at contents (highlight_text h) j)"
  from o have i: "indexOf contents (highlight_text h) = int k" by (simp add: indexOf_first)
  with z show r: "resolve_offsets contents h
      = Some (int k, int k + int (length (highlight_text h)))"
    by (simp add: resolve_offsets_def Let_def)
  assume m: "h \<in> set hs"
  from z o have "slice contents (int k) (int k + int (length (highlight_text h))) = highlight_text h"
    by (simp add: slice_occurrence)
  with r have "highlighted_segment contents h
      = Some \<lparr> segment_text = highlight_text h, isHighlight = True, highlight = Some h \<rparr>"
    by (simp add: highlighted_segment_def)
  with m have "\<lparr> segment_text = highlight_text h, isHighlight = True, highlight = Some h \<rparr>
      \<in> {seg. \<exists>h\<in>set hs. highlighted_segment contents h = Some seg}" by blast
  then show "\<lparr> segment_text = highlight_text h, isHighlight = True, highlight = Some h \<rparr>
                 \<in> set (segments contents hs)"
    unfolding segments_highlight_set [symmetric] by simp
next
  assume z: "startIndex h = 0 \<and> endIndex h = 0 \<and> highlight_text h \<noteq> []"
    and n: "\<forall>k. \<not> occurs_at contents (highlight_text h) k"
  from n have "indexOf contents (highlight_text h) < 0" by (rule indexOf_none)
  with z show r: "resolve_offsets contents h = None"
    by (simp add: resolve_offsets_def Let_def)
  show "\<forall>seg\<in>set (segments contents hs). highlight seg \<noteq> Some h"
  proof
    fix seg assume s: "seg \<in> set (segments contents hs)"
    show "highlight seg \<noteq> Some h"
    proof (cases "isHighlight seg")
      case False
      with s segments_plain show ?thesis by fastforce
    next
      case True
      with s have "seg \<in> {seg \<in> set (segments contents hs). isHighlight seg}" by simp
      then obtain h' where h': "h' \<in> set hs" "highlighted_segment contents h' = Some seg"
        unfolding segments_highlight_set by blast
      then have "highlight seg = Some h'" by (simp add: highlighted_segment_highlight)
      moreover have "h' \<noteq> h" using h'(2) r by (auto simp add: highlighted_segment_def)
      ultimately show ?thesis by simp
    qed
  qed
qed


theorem highlight_offsets_resolved_witness:
  "resolve_offsets scientists qecHighlight = Some (28, 52)
   \<and> \<lparr> segment_text = ''quantum error correction'', isHighlight = True,
        highlight = Some qecHighlight \<rparr> \<in> set (segments scientists [qecHighlight])
   \<and> segments scientists [qecHighlight] =
       [\<lparr> segment_text = ''Scientists discovered a new '', isHighlight = False, highlight = None \<rparr>,
        \<lparr> segment_text = ''quantum error correction'', isHighlight = True,
          highlight = Some qecHighlight \<rparr>,
        \<lparr> segment_text = '' method.'', isHighlight = False, highlight = None \<rparr>]
   \<and> resolve_offsets noQuantum computingHighlight = None
   \<and> segments noQuantum [computingHighlight] =
       [\<lparr> segment_text = noQuantum, isHighlight = False, highlight = None \<rparr>]"
proof -
  have z: "startIndex qecHighlight = 0 \<and> endIndex qecHighlight = 0
             \<and> highlight_text qecHighlight \<noteq> []"
    by (simp add: qecHighlight_def)
  have t: "highlight_text qecHighlight = ''quantum error correction''"
    by (simp add: qecHighlight_def)
  have occ: "occurs_at scientists (highlight_text qecHighlight) 28"
    unfolding t by code_simp
  have "\<forall>j\<in>set [0..<28]. \<not> occurs_at scientists ''quantum error correction'' j"
    by code_simp
  then have first: "\<forall>j<28. \<not> occurs_at scientists (highlight_text qecHighlight) j"
    unfolding t by simp
  have m: "qecHighlight \<in> set [qecHighlight]" by simp
  from highlight_offsets_resolved [of qecHighlight scientists 28 "[qecHighlight]"] z occ first m
  have a: "resolve_offsets scientists qecHighlight = Some (28, 52)"
    and b: "\<lparr> segment_text = ''quantum error correction'', isHighlight = True,
        highlight = Some qecHighlight \<rparr> \<in> set (segments scientists [qecHighlight])"
    by (simp_all add: t)
  have l: "length scientists = 60" by (simp add: scientists_def)
  have s1: "slice scientists 0 28 = ''Scientists discovered a new ''"
    "slice scientists 28 52 = ''quantum error correction''"
    "slice_from scientists 52 = '' method.''"
    by (simp_all add: slice_def slice_from_def scientists_def Let_def)
  have c: "segments scientists [qecHighlight] =
       [\<lparr> segment_text = ''Scientists discovered a new '', isHighlight = False, highlight = None \<rparr>,
        \<lparr> segment_text = ''quantum error correction'', isHighlight = True,
          highlight = Some qecHighlight \<rparr>,
        \<lparr> segment_text = '' method.'', isHighlight = False, highlight = None \<rparr>]"
    by (simp add: segments_def a s1 l)
  have z2: "startIndex computingHighlight = 0 \<and> endIndex computingHighlight = 0
             \<and> highlight_text computingHighlight \<noteq> []"
    by (simp add: computingHighlight_def)
  have "indexOf noQuantum (highlight_text computingHighlight) = - 1"
    by code_simp
  then have none: "\<forall>k. \<not> occurs_at noQuantum (highlight_text computingHighlight) k"
    using indexOf_from_not_found [of 0 noQuantum "highlight_text computingHighlight"]
    by (simp add: indexOf_def)
  from highlight_offsets_resolved [of computingHighlight noQuantum 0 "[computingHighlight]"] z2 none
  have d: "resolve_offsets noQuantum computingHighlight = None" by blast
  have "length noQuantum = 35" by (simp add: noQuantum_def)
  then have e: "segments noQuantum [computingHighlight] =
       [\<lparr> segment_text = noQuantum, isHighlight = False, highlight = None \<rparr>]"
    by (simp add: segments_def d slice_from_def slice_def Let_def)
  from a b c d e show ?thesis by blast
qed

end
